theory Spec2Isabelle
  imports Complex_Main "HOL-Library.Word"
begin

section \<open>Grid shape selection: \<^verbatim>\<open>determine_ideal_shape\<close> of collate_pages.py\<close>

text \<open>
  The source counts the page images of one commit (\<^verbatim>\<open>size = len(list_of_images)\<close>) and
  derives a grid shape from that count alone; the count is the argument of the model.
  \<^verbatim>\<open>math.floor(780 / 210)\<close> and \<^verbatim>\<open>math.floor(668 / 297)\<close> are the integer quotients
  3 and 2.
\<close>

definition A4_page_size :: "nat \<times> nat" where
  "A4_page_size = (210, 297)"

definition available_size_image :: "nat \<times> nat" where
  "available_size_image = (780, 668)"

definition num_a4_on_rows :: nat where
  "num_a4_on_rows = fst available_size_image div fst A4_page_size"

definition num_a4_on_cols :: nat where
  "num_a4_on_cols = snd available_size_image div snd A4_page_size"

text \<open>
  \<^verbatim>\<open>for i in range(100)\<close>: the adder is incremented first, the capacity is tested after the
  increment (\<^verbatim>\<open>break\<close>), and when the range is exhausted the loop simply ends: the source
  has no \<^verbatim>\<open>else\<close> branch and raises nothing.
\<close>

function shape_loop :: "nat \<Rightarrow> nat \<Rightarrow> nat \<Rightarrow> nat \<Rightarrow> nat \<times> nat" where
  "shape_loop size' i adder_r adder_c =
     (if i < 100 then
        (let adder_r' = (if i mod 2 = 0 then adder_r + 1 else adder_r);
             adder_c' = (if i mod 2 = 0 then adder_c else adder_c + 1)
         in if (num_a4_on_rows + adder_r') * (num_a4_on_cols + adder_c') \<ge> size'
            then (adder_r', adder_c')
            else shape_loop size' (i + 1) adder_r' adder_c')
      else (adder_r, adder_c))"
  by pat_completeness auto
termination
  by (relation "measure (\<lambda>(size', i, adder_r, adder_c). 100 - i)") auto

declare shape_loop.simps [simp del]

definition determine_ideal_shape :: "nat \<Rightarrow> nat \<times> nat" where
  "determine_ideal_shape size' =
     (let (adder_r, adder_c) = shape_loop size' 0 0 0;
          number_cols = num_a4_on_cols + adder_c;
          number_rows = num_a4_on_rows + adder_r
      in (number_rows, number_cols))"

definition capacity :: "nat \<times> nat \<Rightarrow> nat" where
  "capacity shape = fst shape * snd shape"

text \<open>
  The growth schedule in the words of the specification: start from the base shape, add a
  row on even steps (0, 2, ...) and a column on odd steps. \<open>grow k\<close> is the shape after
  \<open>k\<close> increments.
\<close>

fun grow :: "nat \<Rightarrow> nat \<times> nat" where
  "grow 0 = (num_a4_on_rows, num_a4_on_cols)"
| "grow (Suc k) = (if k mod 2 = 0 then (fst (grow k) + 1, snd (grow k))
                   else (fst (grow k), snd (grow k) + 1))"


section \<open>Word-cloud layouts: \<^verbatim>\<open>transfer_stats_between_wc\<close> and \<^verbatim>\<open>scale_wordcloud\<close> of create_figure.py\<close>

text \<open>
  An item of \<^verbatim>\<open>layout_\<close> is the tuple \<^verbatim>\<open>((word, unk), fontsize, position, orientation, color)\<close>.
  The word-cloud library stores a string, two numbers, a pair of integers, \<^verbatim>\<open>None\<close> or an
  integer, and a colour string; the defaults that the transfer writes are the integer 0
  and the pair \<^verbatim>\<open>(0, 0)\<close>, so a colour is a string or an integer.

  Numbers (font sizes, the unknown field) have the type \<open>'n\<close>: the numbers that NumPy
  multiplies and divides by a float without raising (floats, and integers within the
  floating-point range, as font sizes are). The model uses nothing of them but \<open>0\<close>,
  \<open>1\<close>, \<open>*\<close> and \<open>/\<close>, so that what is proved holds for every arithmetic, that of
  binary floating point included. The values of \<^verbatim>\<open>np.log10\<close> and Python's evaluation of
  the linear formula are arguments of the model.
\<close>

datatype py_color = ColorStr string | ColorInt int

record 'n entry =
  word :: string
  unk :: 'n
  fontsize :: 'n
  position :: "int \<times> int"
  orientation :: "int option"
  color :: py_color

text \<open>
  Clouds are objects: both functions write \<^verbatim>\<open>target_cloud.layout_[i]\<close> in place. A cloud
  is the address of its object, and the store gives each object its \<^verbatim>\<open>layout_\<close> list.
\<close>

type_synonym cloud = nat
type_synonym 'n store = "cloud \<Rightarrow> 'n entry list"

datatype py_error = AssertionError | UnboundLocalError | ZeroDivisionError | OverflowError
  | TypeError | IndexError | ValueError

record flags =
  transfer_fontsize :: bool
  transfer_pos :: bool
  transfer_orientation :: bool
  transfer_color :: bool
  transfer_unk :: bool

text \<open>\<^verbatim>\<open>{i[0][0]: f(i) for i in layout_}\<close>: items are inserted in order, a later item with the
  same word replaces the earlier one. \<^verbatim>\<open>d.get(k, default)\<close> reads it.\<close>

definition ref_dict :: "('n entry \<Rightarrow> 'v) \<Rightarrow> 'n entry list \<Rightarrow> (string \<rightharpoonup> 'v)" where
  "ref_dict f layout = fold (\<lambda>i d. d(word i \<mapsto> f i)) layout Map.empty"

definition dict_get :: "('k \<rightharpoonup> 'v) \<Rightarrow> 'k \<Rightarrow> 'v \<Rightarrow> 'v" where
  "dict_get d k default' = (case d k of None \<Rightarrow> default' | Some v \<Rightarrow> v)"

text \<open>The body of the transfer loop up to \<^verbatim>\<open>newitem\<close>.\<close>

definition transfer_item ::
  "flags \<Rightarrow> (string \<rightharpoonup> 'n) \<Rightarrow> (string \<rightharpoonup> 'n) \<Rightarrow> (string \<rightharpoonup> int \<times> int) \<Rightarrow>
   (string \<rightharpoonup> int option) \<Rightarrow> (string \<rightharpoonup> py_color) \<Rightarrow> 'n::zero entry \<Rightarrow> 'n entry" where
  "transfer_item fl ref_cloud_fs ref_cloud_unknown ref_cloud_pos ref_cloud_or ref_cloud_col item =
     (let word' = word item;
          fs = (if transfer_fontsize fl then dict_get ref_cloud_fs word' 0 else fontsize item);
          unk' = (if transfer_unk fl then dict_get ref_cloud_unknown word' 0 else unk item);
          pos = (if transfer_pos fl then dict_get ref_cloud_pos word' (0, 0) else position item);
          or' = (if transfer_orientation fl then dict_get ref_cloud_or word' (Some 0)
                 else orientation item);
          col = (if transfer_color fl then dict_get ref_cloud_col word' (ColorInt 0)
                 else color item)
      in \<lparr>word = word', unk = unk', fontsize = fs, position = pos, orientation = or',
          color = col\<rparr>)"

text \<open>
  \<^verbatim>\<open>for i, item in enumerate(target_cloud.layout_): ... target_cloud.layout_[i] = newitem\<close>.
  The iteration reads the list that it writes; writing one index keeps the length.
  A run of the loop is the store together with the indices that have been assigned so
  far, in the order of the assignments: each execution of
  \<^verbatim>\<open>target_cloud.layout_[i] = newitem\<close> changes the store at \<open>i\<close> and appends \<open>i\<close>.
\<close>

type_synonym 'n run = "'n store \<times> nat list"

definition transfer_step ::
  "('n entry \<Rightarrow> 'n entry) \<Rightarrow> cloud \<Rightarrow> nat \<Rightarrow> 'n run \<Rightarrow> 'n run" where
  "transfer_step newitem target_cloud i s =
     (case s of (h, assigned) \<Rightarrow>
        (h(target_cloud := (h target_cloud)[i := newitem (h target_cloud ! i)]),
         assigned @ [i]))"

function transfer_loop ::
  "('n entry \<Rightarrow> 'n entry) \<Rightarrow> cloud \<Rightarrow> nat \<Rightarrow> 'n run \<Rightarrow> 'n run" where
  "transfer_loop newitem target_cloud i s =
     (if i < length (fst s target_cloud)
      then transfer_loop newitem target_cloud (i + 1) (transfer_step newitem target_cloud i s)
      else s)"
  by pat_completeness auto
termination
  by (relation "measure (\<lambda>(newitem, target_cloud, i, s). length (fst s target_cloud) - i)")
    (auto simp: transfer_step_def split: prod.splits)

declare transfer_loop.simps [simp del]

text \<open>The five dictionaries are built from the reference before the loop starts; the
  function returns its argument \<^verbatim>\<open>target_cloud\<close>, whose object the loop has written.\<close>

definition transfer_stats_between_wc ::
  "'n::zero store \<Rightarrow> cloud \<Rightarrow> cloud \<Rightarrow> flags \<Rightarrow> cloud \<times> 'n store" where
  "transfer_stats_between_wc h reference_cloud target_cloud fl =
     (let ref_cloud_fs = ref_dict fontsize (h reference_cloud);
          ref_cloud_unknown = ref_dict unk (h reference_cloud);
          ref_cloud_pos = ref_dict position (h reference_cloud);
          ref_cloud_or = ref_dict orientation (h reference_cloud);
          ref_cloud_col = ref_dict color (h reference_cloud)
      in (target_cloud,
          fst (transfer_loop
                 (transfer_item fl ref_cloud_fs ref_cloud_unknown ref_cloud_pos ref_cloud_or
                    ref_cloud_col)
                 target_cloud 0 (h, []))))"

text \<open>
  \<^verbatim>\<open>np.log10(n)\<close> for a Python integer \<open>n\<close>. An integer that fits \<^verbatim>\<open>int64\<close> or
  \<^verbatim>\<open>uint64\<close> is converted to a float and its logarithm is returned: \<^verbatim>\<open>-inf\<close> for 0 and
  \<^verbatim>\<open>nan\<close> for a negative integer, with a warning and without an exception. Any other
  integer makes an object array, for which the function raises \<^verbatim>\<open>TypeError\<close>. The float
  that is returned is the argument \<open>float_log10\<close>.
\<close>

definition np_log10 :: "(int \<Rightarrow> 'n) \<Rightarrow> int \<Rightarrow> py_error + 'n" where
  "np_log10 float_log10 n =
     (if - (2 ^ 63) \<le> n \<and> n < 2 ^ 64 then Inr (float_log10 n) else Inl TypeError)"

text \<open>
  The font size computed in one iteration of the scaling loop.
  \<^item> \<^verbatim>\<open>linear\<close>: \<^verbatim>\<open>ref_cloud_fs.get(word, 1) * target_wordcount / reference_wordcount\<close> is
    Python arithmetic, whose outcome depends on the kind of number the font size is: with
    a zero reference count a Python number raises \<^verbatim>\<open>ZeroDivisionError\<close> and a NumPy float
    gives \<^verbatim>\<open>inf\<close> or \<^verbatim>\<open>nan\<close>; integers beyond the floating-point range raise
    \<^verbatim>\<open>OverflowError\<close>. The outcome is the argument \<open>py_linear\<close>.
  \<^item> \<^verbatim>\<open>log\<close>: the font size times \<^verbatim>\<open>np.log10(target_wordcount)\<close>, divided by
    \<^verbatim>\<open>np.log10(reference_wordcount)\<close>, the operands evaluated from left to right. The
    product and the quotient are NumPy floats and raise nothing (a division by zero is
    \<^verbatim>\<open>inf\<close> or \<^verbatim>\<open>nan\<close>).
  \<^item> \<^verbatim>\<open>logistic\<close> is \<^verbatim>\<open>assert False\<close>; with any other scale type \<^verbatim>\<open>scaled_fs\<close> is read
    unassigned.
\<close>

definition scaled_fs ::
  "(int \<Rightarrow> 'n) \<Rightarrow> ('n \<Rightarrow> int \<Rightarrow> int \<Rightarrow> py_error + 'n) \<Rightarrow> (string \<rightharpoonup> 'n) \<Rightarrow> int \<Rightarrow> int \<Rightarrow>
   string \<Rightarrow> string \<Rightarrow> py_error + 'n::{one,times,inverse}" where
  "scaled_fs float_log10 py_linear ref_cloud_fs target_wordcount reference_wordcount scale_type
       word' =
     (if scale_type = ''linear'' then
        py_linear (dict_get ref_cloud_fs word' 1) target_wordcount reference_wordcount
      else if scale_type = ''log'' then
        (case np_log10 float_log10 target_wordcount of
           Inl e \<Rightarrow> Inl e
         | Inr log_target \<Rightarrow>
             (case np_log10 float_log10 reference_wordcount of
                Inl e \<Rightarrow> Inl e
              | Inr log_reference \<Rightarrow>
                  Inr (dict_get ref_cloud_fs word' 1 * log_target / log_reference)))
      else if scale_type = ''logistic'' then Inl AssertionError
      else Inl UnboundLocalError)"

text \<open>
  \<^verbatim>\<open>newitem = list(item); newitem[1] = scaled_fs; target_cloud.layout_[i] = newitem\<close>.
  An exception ends the loop at once: the items assigned so far stay assigned, so that the
  loop returns the error, if any, together with its run.
\<close>

definition scale_step :: "cloud \<Rightarrow> nat \<Rightarrow> 'n \<Rightarrow> 'n run \<Rightarrow> 'n run" where
  "scale_step target_cloud i fs s =
     (case s of (h, assigned) \<Rightarrow>
        (h(target_cloud := (h target_cloud)[i := (h target_cloud ! i)\<lparr>fontsize := fs\<rparr>]),
         assigned @ [i]))"

function scale_loop ::
  "(string \<Rightarrow> py_error + 'n) \<Rightarrow> cloud \<Rightarrow> nat \<Rightarrow> 'n run \<Rightarrow> py_error option \<times> 'n run" where
  "scale_loop fs_of target_cloud i s =
     (if i < length (fst s target_cloud) then
        (case fs_of (word (fst s target_cloud ! i)) of
           Inl e \<Rightarrow> (Some e, s)
         | Inr fs \<Rightarrow> scale_loop fs_of target_cloud (i + 1) (scale_step target_cloud i fs s))
      else (None, s))"
  by pat_completeness auto
termination
  by (relation "measure (\<lambda>(fs_of, target_cloud, i, s). length (fst s target_cloud) - i)")
    (auto simp: scale_step_def split: prod.splits)

declare scale_loop.simps [simp del]

text \<open>
  The result is the outcome of the call, the returned cloud or the exception, together
  with the store that the call leaves: the transfer has written the target before the
  scaling loop starts, whatever the loop does.
\<close>

definition scale_wordcloud ::
  "(int \<Rightarrow> 'n) \<Rightarrow> ('n \<Rightarrow> int \<Rightarrow> int \<Rightarrow> py_error + 'n) \<Rightarrow> 'n store \<Rightarrow> cloud \<Rightarrow> cloud \<Rightarrow> int \<Rightarrow> int \<Rightarrow>
   string \<Rightarrow> (py_error + cloud) \<times> 'n::{zero,one,times,inverse} store" where
  "scale_wordcloud float_log10 py_linear h target_cloud reference_cloud target_wordcount
       reference_wordcount scale_type =
     (let (target_cloud', h1) =
            transfer_stats_between_wc h reference_cloud target_cloud
              \<lparr>transfer_fontsize = False, transfer_pos = True, transfer_orientation = True,
               transfer_color = True, transfer_unk = True\<rparr>;
          ref_cloud_fs = ref_dict fontsize (h1 reference_cloud);
          (raised, h2, assigned) =
            scale_loop
              (scaled_fs float_log10 py_linear ref_cloud_fs target_wordcount
                 reference_wordcount scale_type)
              target_cloud' 0 (h1, [])
      in ((case raised of Some e \<Rightarrow> Inl e | None \<Rightarrow> Inr target_cloud'), h2))"

text \<open>The flags of the transfer that the scaling performs first.\<close>

definition scale_flags :: flags where
  "scale_flags = \<lparr>transfer_fontsize = False, transfer_pos = True,
     transfer_orientation = True, transfer_color = True, transfer_unk = True\<rparr>"

subsection \<open>Binary floating point\<close>

text \<open>
  The arithmetic of NumPy's \<^verbatim>\<open>float64\<close> on finite values, as an instance of the number
  type: \<open>Finite m e\<close> is the double \<open>m * 2 ^ e\<close>, with a mantissa of exactly 53 bits
  (or \<open>m = 0\<close>). A product or a quotient is the exact result rounded to the nearest such
  number, ties to the even mantissa. The exponent is not bounded, so that the model is
  IEEE 754 binary64 where no overflow or underflow occurs; it does not tell the two zeros
  apart, and \<open>NonFinite\<close> stands for an infinity or a NaN, which it does not follow.
\<close>

datatype float64 = Finite int int | NonFinite

function bit_length :: "int \<Rightarrow> nat" where
  "bit_length m = (if m \<le> 0 then 0 else Suc (bit_length (m div 2)))"
  by pat_completeness auto
termination
  by (relation "measure nat") auto

declare bit_length.simps [simp del]

text \<open>The double nearest to \<open>m * 2 ^ e\<close>: a mantissa of more than 53 bits loses its
  low bits \<open>r\<close>, and is rounded up when they are more than half, or exactly half with an
  odd quotient.\<close>

definition round_to_53 :: "int \<Rightarrow> int \<Rightarrow> float64" where
  "round_to_53 m e =
     (if m = 0 then Finite 0 0
      else let n = bit_length \<bar>m\<bar> in
        if n \<le> 53 then Finite (m * 2 ^ (53 - n)) (e - int (53 - n))
        else let s = n - 53;
                 q = \<bar>m\<bar> div 2 ^ s;
                 r = \<bar>m\<bar> mod 2 ^ s;
                 half = 2 ^ (s - 1);
                 q' = (if r < half then q else if half < r then q + 1
                       else if even q then q else q + 1)
             in if q' = 2 ^ 53 then Finite (sgn m * 2 ^ 52) (e + int s + 1)
                else Finite (sgn m * q') (e + int s))"

definition float64_of_int :: "int \<Rightarrow> float64" where
  "float64_of_int n = round_to_53 n 0"

fun float64_times :: "float64 \<Rightarrow> float64 \<Rightarrow> float64" where
  "float64_times (Finite m1 e1) (Finite m2 e2) = round_to_53 (m1 * m2) (e1 + e2)"
| "float64_times _ _ = NonFinite"

text \<open>The quotient of the mantissas is taken with 64 more bits and one sticky bit for a
  remainder, which is enough for the rounding to be that of the exact quotient.\<close>

fun float64_divide :: "float64 \<Rightarrow> float64 \<Rightarrow> float64" where
  "float64_divide (Finite m1 e1) (Finite m2 e2) =
     (if m2 = 0 then NonFinite
      else let q = (\<bar>m1\<bar> * 2 ^ 64) div \<bar>m2\<bar>;
               r = (\<bar>m1\<bar> * 2 ^ 64) mod \<bar>m2\<bar>;
               sticky = (if r = 0 then 0 else 1)
           in round_to_53 (sgn m1 * sgn m2 * (2 * q + sticky)) (e1 - e2 - 65))"
| "float64_divide _ _ = NonFinite"

instantiation float64 :: "{zero,one,times,inverse}"
begin

definition zero_float64 :: float64 where
  "zero_float64 = Finite 0 0"

definition one_float64 :: float64 where
  "one_float64 = float64_of_int 1"

definition times_float64 :: "float64 \<Rightarrow> float64 \<Rightarrow> float64" where
  "times_float64 = float64_times"

definition divide_float64 :: "float64 \<Rightarrow> float64 \<Rightarrow> float64" where
  "divide_float64 = float64_divide"

definition inverse_float64 :: "float64 \<Rightarrow> float64" where
  "inverse_float64 x = float64_divide (float64_of_int 1) x"

instance ..

end

subsection \<open>A reference and a target layout\<close>

text \<open>
  The two layouts of the specification's transfer scenario, with exact numbers as the
  number type and the decimal logarithm for \<^verbatim>\<open>np.log10\<close>: the reference cloud is object 0,
  the target cloud object 1.
\<close>

definition example_reference :: "real entry list" where
  "example_reference =
     [\<lparr>word = ''a'', unk = 1, fontsize = 10, position = (1, 1), orientation = None,
       color = ColorStr ''red''\<rparr>,
      \<lparr>word = ''b'', unk = 1 / 2, fontsize = 5, position = (2, 2), orientation = None,
       color = ColorStr ''blue''\<rparr>]"

definition example_target :: "real entry list" where
  "example_target =
     [\<lparr>word = ''a'', unk = 1, fontsize = 8, position = (9, 9), orientation = None,
       color = ColorStr ''green''\<rparr>,
      \<lparr>word = ''c'', unk = 1 / 3, fontsize = 3, position = (5, 5), orientation = Some 2,
       color = ColorStr ''black''\<rparr>]"

definition example_store :: "real store" where
  "example_store = (\<lambda>_. [])(0 := example_reference, 1 := example_target)"

definition example_flags :: flags where
  "example_flags = \<lparr>transfer_fontsize = False, transfer_pos = True,
     transfer_orientation = False, transfer_color = True, transfer_unk = False\<rparr>"

definition log10 :: "int \<Rightarrow> real" where
  "log10 n = log 10 (real_of_int n)"

definition real_linear :: "real \<Rightarrow> int \<Rightarrow> int \<Rightarrow> py_error + real" where
  "real_linear fs t r =
     (if r = 0 then Inl ZeroDivisionError else Inr (fs * real_of_int t / real_of_int r))"

text \<open>
  A layout of one word with the font size 3, in double precision, as the only object of
  its store; and the double that \<^verbatim>\<open>np.log10(6)\<close> returns, 0.7781512503836436, which is
  \<open>7008963362531326 / 2 ^ 53\<close>.
\<close>

definition example_self :: "float64 entry list" where
  "example_self =
     [\<lparr>word = ''a'', unk = float64_of_int 1, fontsize = float64_of_int 3, position = (1, 1),
       orientation = None, color = ColorStr ''red''\<rparr>]"

definition example_self_store :: "float64 store" where
  "example_self_store = (\<lambda>_. [])(0 := example_self)"

definition log10_of_6 :: float64 where
  "log10_of_6 = Finite 7008963362531326 (- 53)"

section \<open>Page canvas: \<^verbatim>\<open>arrange_pages_horizontal\<close> of collate_pages.py\<close>

text \<open>
  An image is a NumPy array of shape (height, width, 3): a list of rows of pixels, all rows
  of one length. The canvas has \<^verbatim>\<open>dtype="uint8"\<close>, and so have the pages that
  \<^verbatim>\<open>imageio.imread\<close> returns: a pixel is three bytes. A colour given as a tuple of Python
  integers becomes a pixel by the cast to \<^verbatim>\<open>uint8\<close> that the assignment into the canvas
  performs. Reading the file of a page is outside the model: a page is its image.
\<close>

type_synonym pixel = "8 word \<times> 8 word \<times> 8 word"
type_synonym image = "pixel list list"

definition shape :: "image \<Rightarrow> nat \<times> nat" where
  "shape image' = (length image', (case image' of [] \<Rightarrow> 0 | row # _ \<Rightarrow> length row))"

definition uint8 :: "int \<times> int \<times> int \<Rightarrow> pixel" where
  "uint8 color' = (case color' of (r, g, b) \<Rightarrow> (word_of_int r, word_of_int g, word_of_int b))"

definition np_full :: "nat \<Rightarrow> nat \<Rightarrow> pixel \<Rightarrow> image" where
  "np_full rows cols color' = replicate rows (replicate cols color')"

definition np_zeros :: "nat \<Rightarrow> nat \<Rightarrow> image" where
  "np_zeros rows cols = np_full rows cols (0, 0, 0)"

text \<open>
  The slice assignment \<^verbatim>\<open>a[y0:y0+h, x0:x0+w, :] = b\<close> for a block \<open>b\<close> of \<open>h\<close> rows
  of width \<open>w\<close>: the pixels inside the rectangle are those of \<open>b\<close>, the others stay.
  NumPy raises when the shape of \<open>b\<close> is not that of the slice; the callers below test
  the shape where it can differ.
\<close>

definition assign_block :: "image \<Rightarrow> nat \<Rightarrow> nat \<Rightarrow> image \<Rightarrow> image" where
  "assign_block a y0 x0 b =
     map (\<lambda>(y, row).
            if y0 \<le> y \<and> y < y0 + length b
            then map (\<lambda>(x, p). if x0 \<le> x \<and> x < x0 + length (b ! (y - y0))
                               then b ! (y - y0) ! (x - x0) else p)
                   (enumerate 0 row)
            else row)
       (enumerate 0 a)"

text \<open>\<^verbatim>\<open>add_border\<close> (zeros around the image; only its shape is used) and \<^verbatim>\<open>add_border_c\<close>
  (a border of the given colour), for a border width of at least 1; both are called with
  the default width 1.\<close>

definition add_border :: "image \<Rightarrow> nat \<Rightarrow> image" where
  "add_border image' width =
     (let newimage = np_zeros (fst (shape image') + width * 2) (snd (shape image') + width * 2)
      in assign_block newimage width width image')"

definition add_border_c :: "image \<Rightarrow> nat \<Rightarrow> int \<times> int \<times> int \<Rightarrow> image" where
  "add_border_c image' border_width color' =
     (let (rows, cols) = shape image';
          newimage = np_full (rows + border_width * 2) (cols + border_width * 2) (uint8 color')
      in assign_block newimage border_width border_width image')"

text \<open>A \<^verbatim>\<open>for\<close> loop whose body may raise: the first error ends it.\<close>

fun for_each :: "('a \<Rightarrow> 's \<Rightarrow> py_error + 's) \<Rightarrow> 'a list \<Rightarrow> 's \<Rightarrow> py_error + 's" where
  "for_each body [] s = Inr s"
| "for_each body (x # xs) s =
     (case body x s of Inl e \<Rightarrow> Inl e | Inr s' \<Rightarrow> for_each body xs s')"

text \<open>
  The body of the inner loop. \<^verbatim>\<open>arr_pages[i, j]\<close> of the reshaped array is element
  \<open>i * num_cols + j\<close> of the padded list; a page is truthy, the padding \<^verbatim>\<open>None\<close> is not.
  The assignment into the canvas raises \<^verbatim>\<open>ValueError\<close> unless the block has the shape
  of a cell (a bordered page has at least two rows and two columns, so that no
  broadcasting applies).
\<close>

definition place_page ::
  "image option list \<Rightarrow> nat \<Rightarrow> nat \<Rightarrow> nat \<Rightarrow> int \<times> int \<times> int \<Rightarrow> nat \<Rightarrow> nat \<Rightarrow> image \<Rightarrow>
   py_error + image" where
  "place_page arr_pages num_cols t_bpage_h t_bpage_w background_color i j canvas =
     (let page = arr_pages ! (i * num_cols + j);
          bpage = (case page of
                     Some image' \<Rightarrow> add_border_c image' 1 (0, 0, 0)
                   | None \<Rightarrow> np_full t_bpage_h t_bpage_w (uint8 background_color))
      in if shape bpage = (t_bpage_h, t_bpage_w)
         then Inr (assign_block canvas (i * t_bpage_h) (j * t_bpage_w) bpage)
         else Inl ValueError)"

text \<open>
  \<^verbatim>\<open>pages[0]\<close> raises \<^verbatim>\<open>IndexError\<close> on an empty list; \<^verbatim>\<open>[None] * n\<close> is empty for a
  negative \<open>n\<close>, and \<^verbatim>\<open>reshape\<close> raises \<^verbatim>\<open>ValueError\<close> unless the padded list has
  exactly \<open>num_rows * num_cols\<close> elements.
\<close>

definition arrange_pages_horizontal ::
  "image list \<Rightarrow> nat \<Rightarrow> nat \<Rightarrow> int \<times> int \<times> int \<Rightarrow> py_error + image" where
  "arrange_pages_horizontal pages num_rows num_cols background_color =
     (case pages of
        [] \<Rightarrow> Inl IndexError
      | test_page # _ \<Rightarrow>
          (let t_bpage = add_border test_page 1;
               (t_bpage_h, t_bpage_w) = shape t_bpage;
               canvas = np_zeros (num_rows * t_bpage_h) (num_cols * t_bpage_w);
               ideal_num_pages = num_rows * num_cols;
               extra_required_pages = ideal_num_pages - length pages;
               pages' = map Some pages @ replicate extra_required_pages None
           in if length pages' \<noteq> num_rows * num_cols then Inl ValueError
              else for_each
                     (\<lambda>i. for_each
                             (place_page pages' num_cols t_bpage_h t_bpage_w background_color i)
                             [0..<num_cols])
                     [0..<num_rows] canvas))"

text \<open>All rows of an image have the width that its shape reports.\<close>

definition rect :: "image \<Rightarrow> bool" where
  "rect image' = list_all (\<lambda>row. length row = snd (shape image')) image'"


text \<open>Auxiliary notions for the proofs: an array of \<open>h\<close> rows of width \<open>w\<close>; the
  block that the loop body writes for the page of index \<open>k\<close>; and a canvas whose cells
  in \<open>S\<close> hold their blocks.\<close>

definition sized :: "nat \<Rightarrow> nat \<Rightarrow> image \<Rightarrow> bool" where
  "sized h w a = (length a = h \<and> list_all (\<lambda>row. length row = w) a)"

definition cell_block :: "image option list \<Rightarrow> nat \<Rightarrow> nat \<Rightarrow> int \<times> int \<times> int \<Rightarrow> nat \<Rightarrow> image" where
  "cell_block arr_pages h w background_color k =
     (case arr_pages ! k of
        Some image' \<Rightarrow> add_border_c image' 1 (0, 0, 0)
      | None \<Rightarrow> np_full h w (uint8 background_color))"

definition filled :: "(nat \<Rightarrow> image) \<Rightarrow> nat \<Rightarrow> nat \<Rightarrow> nat \<Rightarrow> (nat \<times> nat) set \<Rightarrow> image \<Rightarrow> bool" where
  "filled B num_cols h w S canvas =
     (\<forall>i j y x. (i, j) \<in> S \<and> y < h \<and> x < w \<longrightarrow>
        canvas ! (i * h + y) ! (j * w + x) = B (i * num_cols + j) ! y ! x)"

text \<open>Two pages of one pixel each.\<close>

definition example_pages :: "image list" where
  "example_pages = [[[(1, 2, 3)]], [[(7, 8, 9)]]]"

section \<open>Facts about the growth loop\<close>

lemma num_a4_values: "num_a4_on_rows = 3" "num_a4_on_cols = 2"
  by (simp_all add: num_a4_on_rows_def num_a4_on_cols_def available_size_image_def
      A4_page_size_def)

lemma grow_closed: "grow k = (3 + (k + 1) div 2, 2 + k div 2)"
proof (induction k)
  case 0
  show ?case by (simp add: num_a4_values)
next
  case (Suc k)
  have "k mod 2 = 0 \<Longrightarrow> (k + 1) div 2 = k div 2 \<and> (k + 2) div 2 = k div 2 + 1"
    by presburger
  moreover have "k mod 2 \<noteq> 0 \<Longrightarrow> (k + 1) div 2 = k div 2 + 1 \<and> (k + 2) div 2 = k div 2 + 1"
    by presburger
  ultimately show ?case using Suc by (cases "k mod 2 = 0") auto
qed

lemma capacity_grow_mono: "j \<le> k \<Longrightarrow> capacity (grow j) \<le> capacity (grow k)"
proof -
  assume jk: "j \<le> k"
  have "(j + 1) div 2 \<le> (k + 1) div 2" and "j div 2 \<le> k div 2"
    using jk by (simp_all add: div_le_mono)
  then show ?thesis
    unfolding capacity_def grow_closed fst_conv snd_conv
    by (intro mult_le_mono) simp_all
qed

lemma capacity_grow_100: "capacity (grow 100) = 2756"
  by (simp add: capacity_def grow_closed)

text \<open>
  The loop entered at step \<open>i\<close> with the adders of \<open>grow i\<close> stops after some step
  \<open>k\<close> with \<open>i < k \<le> 100\<close>: every earlier step was insufficient, and \<open>k\<close> is sufficient
  unless the range ran out.
\<close>

lemma shape_loop_char:
  "i < 100 \<Longrightarrow> adder_r = (i + 1) div 2 \<Longrightarrow> adder_c = i div 2 \<Longrightarrow>
   \<exists>k. i < k \<and> k \<le> 100 \<and> shape_loop n i adder_r adder_c = ((k + 1) div 2, k div 2)
     \<and> (\<forall>j. i < j \<and> j < k \<longrightarrow> capacity (grow j) < n)
     \<and> (k < 100 \<longrightarrow> n \<le> capacity (grow k))"
proof (induction n i adder_r adder_c rule: shape_loop.induct)
  case (1 n i adder_r adder_c)
  define ar where "ar = (if i mod 2 = 0 then adder_r + 1 else adder_r)"
  define ac where "ac = (if i mod 2 = 0 then adder_c else adder_c + 1)"
  have ar: "ar = (i + 2) div 2" and ac: "ac = (i + 1) div 2"
    using "1.prems"(2,3) unfolding ar_def ac_def by presburger+
  have cap: "capacity (grow (i + 1)) = (num_a4_on_rows + ar) * (num_a4_on_cols + ac)"
    by (simp add: capacity_def grow_closed num_a4_values ar ac)
  have unfold: "shape_loop n i adder_r adder_c =
      (if n \<le> (num_a4_on_rows + ar) * (num_a4_on_cols + ac) then (ar, ac)
       else shape_loop n (i + 1) ar ac)"
    using "1.prems"(1) by (subst shape_loop.simps) (simp add: ar_def ac_def Let_def)
  show ?case
  proof (cases "n \<le> (num_a4_on_rows + ar) * (num_a4_on_cols + ac)")
    case True
    have "shape_loop n i adder_r adder_c = ((i + 1 + 1) div 2, (i + 1) div 2)"
      using True unfold ar ac by simp
    moreover have "\<forall>j. i < j \<and> j < i + 1 \<longrightarrow> capacity (grow j) < n" by auto
    moreover have "n \<le> capacity (grow (i + 1))" using True cap by simp
    ultimately show ?thesis using "1.prems"(1)
      by (intro exI[of _ "i + 1"]) simp
  next
    case False
    show ?thesis
    proof (cases "i + 1 < 100")
      case True
      have "\<exists>k. i + 1 < k \<and> k \<le> 100 \<and> shape_loop n (i + 1) ar ac = ((k + 1) div 2, k div 2)
          \<and> (\<forall>j. i + 1 < j \<and> j < k \<longrightarrow> capacity (grow j) < n)
          \<and> (k < 100 \<longrightarrow> n \<le> capacity (grow k))"
        using "1.IH"[OF "1.prems"(1) ar_def ac_def _ True] False ar ac by simp
      then obtain k where k: "i + 1 < k" "k \<le> 100"
          "shape_loop n (i + 1) ar ac = ((k + 1) div 2, k div 2)"
          "\<forall>j. i + 1 < j \<and> j < k \<longrightarrow> capacity (grow j) < n"
          "k < 100 \<longrightarrow> n \<le> capacity (grow k)"
        by blast
      have "\<forall>j. i < j \<and> j < k \<longrightarrow> capacity (grow j) < n"
      proof (intro allI impI)
        fix j assume j: "i < j \<and> j < k"
        show "capacity (grow j) < n"
        proof (cases "j = i + 1")
          case True
          then show ?thesis using False cap by simp
        next
          case False
          then show ?thesis using j k(4) by simp
        qed
      qed
      then show ?thesis using k unfold False
        by (intro exI[of _ k]) simp
    next
      case i99: False
      then have i: "i + 1 = 100" using "1.prems"(1) by simp
      have "shape_loop n 100 ar ac = (ar, ac)"
        by (subst shape_loop.simps) simp
      then have stop: "shape_loop n (i + 1) ar ac = (ar, ac)"
        by (simp only: i)
      have "shape_loop n i adder_r adder_c = ((100 + 1) div 2, 100 div 2)"
        using unfold False stop ar ac i by simp
      moreover have "\<forall>j. i < j \<and> j < 100 \<longrightarrow> capacity (grow j) < n"
        using i by auto
      ultimately show ?thesis using i
        by (intro exI[of _ 100]) simp
    qed
  qed
qed

lemma determine_ideal_shape_char:
  "\<exists>k. 1 \<le> k \<and> k \<le> 100 \<and> determine_ideal_shape n = grow k
     \<and> (\<forall>j. 1 \<le> j \<and> j < k \<longrightarrow> capacity (grow j) < n)
     \<and> (k < 100 \<longrightarrow> n \<le> capacity (grow k))"
proof -
  obtain k where k: "0 < k" "k \<le> 100" "shape_loop n 0 0 0 = ((k + 1) div 2, k div 2)"
      "\<forall>j. 0 < j \<and> j < k \<longrightarrow> capacity (grow j) < n"
      "k < 100 \<longrightarrow> n \<le> capacity (grow k)"
    using shape_loop_char[of 0 0 0 n] by auto
  have "determine_ideal_shape n = grow k"
    by (simp add: determine_ideal_shape_def k(3) grow_closed num_a4_values)
  then show ?thesis using k by (intro exI[of _ k]) auto
qed


section \<open>Facts about the layout loops\<close>

lemma ref_dict_snoc: "ref_dict f (xs @ [x]) = (ref_dict f xs)(word x \<mapsto> f x)"
  by (simp add: ref_dict_def)

lemma ref_dict_Nil: "ref_dict f [] = Map.empty"
  by (simp add: ref_dict_def)

lemma ref_dict_lookup:
  "ref_dict f R w =
     (if w \<in> word ` set R then Some (f (last (filter (\<lambda>x. word x = w) R))) else None)"
proof (induction R rule: rev_induct)
  case Nil
  show ?case by (simp add: ref_dict_Nil)
next
  case (snoc x xs)
  show ?case
  proof (cases "word x = w")
    case True
    then show ?thesis by (simp add: ref_dict_snoc)
  next
    case False
    then show ?thesis using snoc by (auto simp: ref_dict_snoc)
  qed
qed

lemma dict_get_ref_dict:
  "dict_get (ref_dict f R) w d =
     (if w \<in> word ` set R then f (last (filter (\<lambda>x. word x = w) R)) else d)"
  by (simp add: dict_get_def ref_dict_lookup)

lemma filter_word_distinct:
  "distinct (map word L) \<Longrightarrow> e \<in> set L \<Longrightarrow> filter (\<lambda>x. word x = word e) L = [e]"
proof (induction L)
  case Nil
  then show ?case by simp
next
  case (Cons a L)
  show ?case
  proof (cases "e = a")
    case True
    have "filter (\<lambda>x. word x = word a) L = []"
    proof (rule ccontr)
      assume "filter (\<lambda>x. word x = word a) L \<noteq> []"
      then obtain x where "x \<in> set L" "word x = word a"
        by (auto simp: filter_empty_conv)
      then have "word a \<in> word ` set L" by (metis imageI)
      then show False using Cons.prems(1) by simp
    qed
    then show ?thesis using True by simp
  next
    case False
    then have "e \<in> set L" using Cons.prems(2) by simp
    moreover from this have "word a \<noteq> word e" using Cons.prems(1) by (metis distinct.simps(2) imageI list.simps(9) set_map)
    ultimately show ?thesis using Cons by simp
  qed
qed

lemma transfer_step_fst:
  "fst (transfer_step f t i s) = (fst s)(t := (fst s t)[i := f (fst s t ! i)])"
  by (simp add: transfer_step_def split: prod.splits)

lemma transfer_step_snd: "snd (transfer_step f t i s) = snd s @ [i]"
  by (simp add: transfer_step_def split: prod.splits)

lemma upd_take_map_drop:
  "i < length L \<Longrightarrow>
   take (i + 1) (L[i := f (L ! i)]) @ map f (drop (i + 1) (L[i := f (L ! i)]))
     = take i L @ map f (drop i L)"
proof -
  assume i: "i < length L"
  have "take (i + 1) (L[i := f (L ! i)]) = take i L @ [f (L ! i)]"
    using i by (simp add: take_Suc_conv_app_nth)
  moreover have "drop (i + 1) (L[i := f (L ! i)]) = drop (i + 1) L" by simp
  moreover have "drop i L = L ! i # drop (i + 1) L"
    using i by (simp add: Cons_nth_drop_Suc)
  ultimately show ?thesis by simp
qed

lemma transfer_loop_eq:
  "i \<le> length (fst s t) \<Longrightarrow>
   transfer_loop f t i s =
     ((fst s)(t := take i (fst s t) @ map f (drop i (fst s t))),
      snd s @ [i..<length (fst s t)])"
proof (induction f t i s rule: transfer_loop.induct)
  case (1 f t i s)
  let ?L = "fst s t"
  show ?case
  proof (cases "i < length ?L")
    case True
    let ?s = "transfer_step f t i s"
    have L1: "fst ?s t = ?L[i := f (?L ! i)]" by (simp add: transfer_step_fst)
    have len: "i + 1 \<le> length (fst ?s t)" using True by (simp add: L1)
    have "transfer_loop f t i s = transfer_loop f t (i + 1) ?s"
      using True by (subst transfer_loop.simps) simp
    also have "\<dots> = ((fst ?s)(t := take (i + 1) (fst ?s t) @ map f (drop (i + 1) (fst ?s t))),
        snd ?s @ [i + 1..<length (fst ?s t)])"
      using "1.IH"[OF True len] .
    also have "(fst ?s)(t := take (i + 1) (fst ?s t) @ map f (drop (i + 1) (fst ?s t)))
        = (fst s)(t := take i ?L @ map f (drop i ?L))"
      using upd_take_map_drop[OF True, of f] by (simp add: transfer_step_fst)
    also have "snd ?s @ [i + 1..<length (fst ?s t)] = snd s @ [i..<length ?L]"
      using True by (simp add: transfer_step_snd L1 upt_conv_Cons)
    finally show ?thesis .
  next
    case False
    then have "i = length ?L" using "1.prems" by simp
    then show ?thesis by (subst transfer_loop.simps) simp
  qed
qed

lemma transfer_stats_between_wc_eq:
  "transfer_stats_between_wc h r t fl =
     (t, h(t := map (transfer_item fl (ref_dict fontsize (h r)) (ref_dict unk (h r))
                       (ref_dict position (h r)) (ref_dict orientation (h r))
                       (ref_dict color (h r))) (h t)))"
  by (simp add: transfer_stats_between_wc_def Let_def transfer_loop_eq)


lemma transfer_item_word [simp]: "word (transfer_item fl a b c d e item) = word item"
  by (simp add: transfer_item_def Let_def)

lemma transfer_item_fontsize_off:
  "\<not> transfer_fontsize fl \<Longrightarrow> fontsize (transfer_item fl a b c d e item) = fontsize item"
  by (simp add: transfer_item_def Let_def)

lemma ref_dict_cong:
  "map word L = map word L' \<Longrightarrow> map f L = map f L' \<Longrightarrow> ref_dict f L = ref_dict f L'"
proof -
  assume a: "map word L = map word L'" "map f L = map f L'"
  have eq: "\<And>M. ref_dict f M = fold (\<lambda>p d. d(fst p \<mapsto> snd p)) (zip (map word M) (map f M)) Map.empty"
  proof -
    fix M :: "'a entry list"
    have "zip (map word M) (map f M) = map (\<lambda>i. (word i, f i)) M"
      by (induction M) simp_all
    then show "ref_dict f M = fold (\<lambda>p d. d(fst p \<mapsto> snd p)) (zip (map word M) (map f M)) Map.empty"
      by (simp add: ref_dict_def fold_map comp_def)
  qed
  show ?thesis by (simp only: eq a)
qed

lemma transfer_item_same:
  assumes "distinct (map word L)" "e \<in> set L"
  shows "transfer_item fl (ref_dict fontsize L) (ref_dict unk L) (ref_dict position L)
           (ref_dict orientation L) (ref_dict color L) e = e"
proof -
  have "word e \<in> word ` set L" using assms(2) by simp
  then show ?thesis
    using filter_word_distinct[OF assms]
    by (simp add: transfer_item_def Let_def dict_get_ref_dict)
qed


lemmas example_defs = example_store_def example_reference_def example_target_def
  example_flags_def

lemma transfer_keeps_fontsize_dict:
  "\<not> transfer_fontsize fl \<Longrightarrow>
   ref_dict fontsize (snd (transfer_stats_between_wc h r t fl) a) = ref_dict fontsize (h a)"
proof (cases "a = t")
  case True
  assume off: "\<not> transfer_fontsize fl"
  show ?thesis
    unfolding transfer_stats_between_wc_eq snd_conv True
    by (rule ref_dict_cong) (simp_all add: comp_def transfer_item_fontsize_off[OF off])
next
  case False
  then show ?thesis by (simp add: transfer_stats_between_wc_eq)
qed



lemma scale_step_fst:
  "fst (scale_step t i fs s) = (fst s)(t := (fst s t)[i := (fst s t ! i)\<lparr>fontsize := fs\<rparr>])"
  by (simp add: scale_step_def split: prod.splits)

lemma scale_step_snd: "snd (scale_step t i fs s) = snd s @ [i]"
  by (simp add: scale_step_def split: prod.splits)

lemma take_map_take_drop_step:
  assumes i: "i < length L" and m: "i + 1 \<le> m" "m \<le> length L"
  shows "take (i + 1) (L[i := g (L ! i)])
           @ map g (take (m - (i + 1)) (drop (i + 1) (L[i := g (L ! i)])))
           @ drop m (L[i := g (L ! i)])
         = take i L @ map g (take (m - i) (drop i L)) @ drop m L"
proof -
  have a: "take (i + 1) (L[i := g (L ! i)]) = take i L @ [g (L ! i)]"
    using i by (simp add: take_Suc_conv_app_nth)
  have b: "drop (i + 1) (L[i := g (L ! i)]) = drop (i + 1) L" by simp
  have c: "drop m (L[i := g (L ! i)]) = drop m L" using m(1) by simp
  have d: "drop i L = L ! i # drop (i + 1) L" using i by (simp add: Cons_nth_drop_Suc)
  have e: "m - i = Suc (m - (i + 1))" using m(1) by simp
  show ?thesis unfolding a b c d e by simp
qed

text \<open>
  The scaling loop entered at index \<open>i\<close> assigns the indices \<open>i, ..., m - 1\<close> in this
  order and stops at \<open>m\<close>: at the end of the list when nothing was raised, and else at
  the first item whose font size raises.
\<close>

lemma scale_loop_char:
  "i \<le> length (fst s t) \<Longrightarrow> scale_loop fs_of t i s = (raised, s') \<Longrightarrow>
   \<exists>m. i \<le> m \<and> m \<le> length (fst s t)
     \<and> snd s' = snd s @ [i..<m]
     \<and> fst s' = (fst s)(t := take i (fst s t)
           @ map (\<lambda>e. e\<lparr>fontsize := projr (fs_of (word e))\<rparr>) (take (m - i) (drop i (fst s t)))
           @ drop m (fst s t))
     \<and> (case raised of None \<Rightarrow> m = length (fst s t)
         | Some e \<Rightarrow> m < length (fst s t) \<and> fs_of (word (fst s t ! m)) = Inl e)"
proof (induction fs_of t i s arbitrary: raised s' rule: scale_loop.induct)
  case (1 fs_of t i s)
  let ?L = "fst s t"
  let ?G = "\<lambda>e. e\<lparr>fontsize := projr (fs_of (word e))\<rparr>"
  show ?case
  proof (cases "i < length ?L")
    case True
    show ?thesis
    proof (cases "fs_of (word (?L ! i))")
      case (Inl e)
      then have "scale_loop fs_of t i s = (Some e, s)"
        using True by (subst scale_loop.simps) simp
      then have r: "raised = Some e" "s' = s" using "1.prems"(2) by simp_all
      show ?thesis using True Inl r by (intro exI[of _ i]) simp
    next
      case (Inr fs)
      let ?s = "scale_step t i fs s"
      have G: "?G (?L ! i) = (?L ! i)\<lparr>fontsize := fs\<rparr>" using Inr by simp
      have L1: "fst ?s t = ?L[i := ?G (?L ! i)]" by (simp add: scale_step_fst G)
      have len: "i + 1 \<le> length (fst ?s t)" using True by (simp add: L1)
      have "scale_loop fs_of t i s = scale_loop fs_of t (i + 1) ?s"
        using True Inr by (subst scale_loop.simps) simp
      then have run: "scale_loop fs_of t (i + 1) ?s = (raised, s')"
        using "1.prems"(2) by simp
      obtain m where m: "i + 1 \<le> m" "m \<le> length (fst ?s t)"
          "snd s' = snd ?s @ [i + 1..<m]"
          "fst s' = (fst ?s)(t := take (i + 1) (fst ?s t)
             @ map ?G (take (m - (i + 1)) (drop (i + 1) (fst ?s t))) @ drop m (fst ?s t))"
          "case raised of None \<Rightarrow> m = length (fst ?s t)
           | Some e \<Rightarrow> m < length (fst ?s t) \<and> fs_of (word (fst ?s t ! m)) = Inl e"
        using "1.IH"[OF True Inr len run] by blast
      have m': "m \<le> length ?L" using m(2) by (simp add: L1)
      have a: "i \<le> m" using m(1) by simp
      have b: "snd s' = snd s @ [i..<m]"
        using m(1,3) by (simp add: scale_step_snd upt_conv_Cons)
      have "take (i + 1) (fst ?s t) @ map ?G (take (m - (i + 1)) (drop (i + 1) (fst ?s t)))
            @ drop m (fst ?s t)
          = take i ?L @ map ?G (take (m - i) (drop i ?L)) @ drop m ?L"
        unfolding L1 using take_map_take_drop_step[OF True m(1) m', of ?G] .
      then have c: "fst s' = (fst s)(t := take i ?L @ map ?G (take (m - i) (drop i ?L))
          @ drop m ?L)"
        using m(4) by (simp add: scale_step_fst)
      have d: "case raised of None \<Rightarrow> m = length ?L
          | Some e \<Rightarrow> m < length ?L \<and> fs_of (word (?L ! m)) = Inl e"
        using m(5) m(1) by (simp add: L1 split: option.splits)
      show ?thesis using a m' b c d by (intro exI[of _ m]) simp
    qed
  next
    case False
    then have "scale_loop fs_of t i s = (None, s)" by (subst scale_loop.simps) simp
    then have r: "raised = None" "s' = s" using "1.prems"(2) by simp_all
    have "i = length ?L" using False "1.prems"(1) by simp
    then show ?thesis using r by (intro exI[of _ i]) simp
  qed
qed


lemma scale_wordcloud_run:
  fixes h :: "'n::{zero,one,times,inverse} store"
  assumes "scale_loop (scaled_fs lg lin (ref_dict fontsize (h r)) tw rw ty) t 0
             (snd (transfer_stats_between_wc h r t scale_flags), []) = (raised, s')"
  shows "scale_wordcloud lg lin h t r tw rw ty
           = ((case raised of Some e \<Rightarrow> Inl e | None \<Rightarrow> Inr t), fst s')"
proof -
  define h1 where "h1 = snd (transfer_stats_between_wc h r t scale_flags)"
  have off: "\<not> transfer_fontsize scale_flags" by (simp add: scale_flags_def)
  have d: "ref_dict fontsize (h1 r) = ref_dict fontsize (h r)"
    unfolding h1_def by (rule transfer_keeps_fontsize_dict[OF off])
  have t: "transfer_stats_between_wc h r t scale_flags = (t, h1)"
    by (simp add: h1_def transfer_stats_between_wc_eq)
  have run: "scale_loop (scaled_fs lg lin (ref_dict fontsize (h r)) tw rw ty) t 0 (h1, [])
      = (raised, fst s', snd s')"
    using assms by (simp add: h1_def)
  show ?thesis
    unfolding scale_wordcloud_def scale_flags_def[symmetric]
    by (simp add: t d run case_prod_beta cong: option.case_cong)
qed

lemma scale_loop_char_0:
  assumes "scale_loop fs_of t 0 (h, []) = (raised, s')"
  shows "\<exists>m. m \<le> length (h t)
     \<and> s' = (h(t := map (\<lambda>e. e\<lparr>fontsize := projr (fs_of (word e))\<rparr>) (take m (h t))
                  @ drop m (h t)), [0..<m])
     \<and> (case raised of None \<Rightarrow> m = length (h t)
         | Some e \<Rightarrow> m < length (h t) \<and> fs_of (word (h t ! m)) = Inl e)"
proof -
  have "0 \<le> length (fst (h, []) t)" by simp
  from scale_loop_char[OF this assms]
  obtain m where m: "m \<le> length (h t)" "snd s' = [0..<m]"
      "fst s' = h(t := map (\<lambda>e. e\<lparr>fontsize := projr (fs_of (word e))\<rparr>) (take m (h t))
           @ drop m (h t))"
      "case raised of None \<Rightarrow> m = length (fst (h, []) t)
       | Some e \<Rightarrow> m < length (fst (h, []) t) \<and> fs_of (word (fst (h, []) t ! m)) = Inl e"
    by (auto cong: option.case_cong)
  have c: "case raised of None \<Rightarrow> m = length (h t)
      | Some e \<Rightarrow> m < length (h t) \<and> fs_of (word (h t ! m)) = Inl e"
    using m(4) by (cases raised) simp_all
  have "s' = (fst s', snd s')" by simp
  then have "s' = (h(t := map (\<lambda>e. e\<lparr>fontsize := projr (fs_of (word e))\<rparr>) (take m (h t))
                  @ drop m (h t)), [0..<m])"
    by (simp only: m(2,3))
  then show ?thesis using m(1) c by blast
qed

lemma scale_wordcloud_char:
  fixes h :: "'n::{zero,one,times,inverse} store"
  shows "\<exists>raised m.
      m \<le> length (h t)
    \<and> scale_loop (scaled_fs lg lin (ref_dict fontsize (h r)) tw rw ty) t 0
        (snd (transfer_stats_between_wc h r t scale_flags), [])
        = (raised,
           (snd (transfer_stats_between_wc h r t scale_flags))
             (t := map (\<lambda>e. e\<lparr>fontsize :=
                          projr (scaled_fs lg lin (ref_dict fontsize (h r)) tw rw ty (word e))\<rparr>)
                     (take m (snd (transfer_stats_between_wc h r t scale_flags) t))
                   @ drop m (snd (transfer_stats_between_wc h r t scale_flags) t)),
           [0..<m])
    \<and> scale_wordcloud lg lin h t r tw rw ty
        = ((case raised of Some e \<Rightarrow> Inl e | None \<Rightarrow> Inr t),
           (snd (transfer_stats_between_wc h r t scale_flags))
             (t := map (\<lambda>e. e\<lparr>fontsize :=
                          projr (scaled_fs lg lin (ref_dict fontsize (h r)) tw rw ty (word e))\<rparr>)
                     (take m (snd (transfer_stats_between_wc h r t scale_flags) t))
                   @ drop m (snd (transfer_stats_between_wc h r t scale_flags) t)))
    \<and> (case raised of
          None \<Rightarrow> m = length (h t)
        | Some e \<Rightarrow> m < length (h t)
            \<and> scaled_fs lg lin (ref_dict fontsize (h r)) tw rw ty
                 (word (h t ! m)) = Inl e)"
proof -
  define h1 where "h1 = snd (transfer_stats_between_wc h r t scale_flags)"
  define fs_of where "fs_of = scaled_fs lg lin (ref_dict fontsize (h r)) tw rw ty"
  have len: "length (h1 t) = length (h t)"
    by (simp add: h1_def transfer_stats_between_wc_eq)
  have w: "\<And>i. i < length (h t) \<Longrightarrow> word (h1 t ! i) = word (h t ! i)"
    by (simp add: h1_def transfer_stats_between_wc_eq)
  obtain raised s' where run: "scale_loop fs_of t 0 (h1, []) = (raised, s')"
    by (cases "scale_loop fs_of t 0 (h1, [])") auto
  obtain m where m: "m \<le> length (h1 t)"
      "s' = (h1(t := map (\<lambda>e. e\<lparr>fontsize := projr (fs_of (word e))\<rparr>) (take m (h1 t))
           @ drop m (h1 t)), [0..<m])"
      "case raised of None \<Rightarrow> m = length (h1 t)
       | Some e \<Rightarrow> m < length (h1 t) \<and> fs_of (word (h1 t ! m)) = Inl e"
    using scale_loop_char_0[OF run] by blast
  note s' = m(2)
  have res: "scale_wordcloud lg lin h t r tw rw ty
      = ((case raised of Some e \<Rightarrow> Inl e | None \<Rightarrow> Inr t), fst s')"
    using run unfolding fs_of_def h1_def by (rule scale_wordcloud_run)
  have c: "case raised of None \<Rightarrow> m = length (h t)
      | Some e \<Rightarrow> m < length (h t) \<and> fs_of (word (h t ! m)) = Inl e"
    using m(3) len w by (auto split: option.splits)
  have "m \<le> length (h t)" using m(1) len by simp
  then show ?thesis
    using run res c unfolding s' fst_conv h1_def fs_of_def by blast
qed

lemma scaled_fs_log:
  "- (2 ^ 63) \<le> tw \<Longrightarrow> tw < 2 ^ 64 \<Longrightarrow> - (2 ^ 63) \<le> rw \<Longrightarrow> rw < 2 ^ 64 \<Longrightarrow>
   scaled_fs lg lin d tw rw ''log'' w = Inr (dict_get d w 1 * lg tw / lg rw)"
  by (simp add: scaled_fs_def np_log10_def)

lemma scaled_fs_log_TypeError:
  "\<not> (- (2 ^ 63) \<le> tw \<and> tw < 2 ^ 64) \<or> \<not> (- (2 ^ 63) \<le> rw \<and> rw < 2 ^ 64) \<Longrightarrow>
   scaled_fs lg lin d tw rw ''log'' w = Inl TypeError"
  by (auto simp: scaled_fs_def np_log10_def)

lemma scale_wordcloud_log:
  fixes h :: "'n::{zero,one,times,inverse} store"
  assumes "- (2 ^ 63) \<le> tw" "tw < 2 ^ 64" "- (2 ^ 63) \<le> rw" "rw < 2 ^ 64"
  shows "scale_wordcloud lg lin h t r tw rw ''log'' =
     (Inr t, (snd (transfer_stats_between_wc h r t scale_flags))
               (t := map (\<lambda>e. e\<lparr>fontsize := dict_get (ref_dict fontsize (h r)) (word e) 1
                                              * lg tw / lg rw\<rparr>)
                      (snd (transfer_stats_between_wc h r t scale_flags) t)))"
proof -
  define h1 where "h1 = snd (transfer_stats_between_wc h r t scale_flags)"
  define fs_of where "fs_of = scaled_fs lg lin (ref_dict fontsize (h r)) tw rw ''log''"
  have fs: "\<And>w. fs_of w = Inr (dict_get (ref_dict fontsize (h r)) w 1 * lg tw / lg rw)"
    unfolding fs_of_def by (rule scaled_fs_log[OF assms])
  have len: "length (h1 t) = length (h t)"
    by (simp add: h1_def transfer_stats_between_wc_eq)
  obtain raised m where m: "m \<le> length (h t)"
      "scale_wordcloud lg lin h t r tw rw ''log''
        = ((case raised of Some e \<Rightarrow> Inl e | None \<Rightarrow> Inr t),
           h1(t := map (\<lambda>e. e\<lparr>fontsize := projr (fs_of (word e))\<rparr>) (take m (h1 t))
                   @ drop m (h1 t)))"
      "case raised of None \<Rightarrow> m = length (h t)
        | Some e \<Rightarrow> m < length (h t) \<and> fs_of (word (h t ! m)) = Inl e"
    using scale_wordcloud_char[where h = h and t = t and r = r and lg = lg and lin = lin
        and tw = tw and rw = rw and ty = "''log''"]
    unfolding h1_def fs_of_def by blast
  have none: "raised = None" using m(3) fs by (cases raised) auto
  then have "m = length (h1 t)" using m(3) len by simp
  then show ?thesis using m(2) none unfolding h1_def[symmetric] by (simp add: fs)
qed

lemma scale_wordcloud_frame:
  fixes h :: "'n::{zero,one,times,inverse} store"
  shows "(\<forall>a. a \<noteq> t \<longrightarrow> snd (scale_wordcloud lg lin h t r tw rw ty) a = h a)
     \<and> (\<forall>c. fst (scale_wordcloud lg lin h t r tw rw ty) = Inr c \<longrightarrow> c = t)"
proof -
  define h1 where "h1 = snd (transfer_stats_between_wc h r t scale_flags)"
  obtain raised m where m:
      "scale_wordcloud lg lin h t r tw rw ty
        = ((case raised of Some e \<Rightarrow> Inl e | None \<Rightarrow> Inr t),
           h1(t := map (\<lambda>e. e\<lparr>fontsize :=
                          projr (scaled_fs lg lin (ref_dict fontsize (h r)) tw rw ty (word e))\<rparr>)
                     (take m (h1 t)) @ drop m (h1 t)))"
    using scale_wordcloud_char[where h = h and t = t and r = r and lg = lg and lin = lin
        and tw = tw and rw = rw and ty = ty]
    unfolding h1_def by blast
  have "\<forall>a. a \<noteq> t \<longrightarrow> h1 a = h a"
    by (simp add: h1_def transfer_stats_between_wc_eq)
  then show ?thesis unfolding m by (auto split: option.splits)
qed

lemma scale_self_fontsizes:
  fixes h :: "'n::{zero,one,times,inverse} store"
  assumes same: "h reference_cloud = h target_cloud"
    and dist: "distinct (map word (h target_cloud))"
    and c: "1 < c" "c < 2 ^ 64"
  shows "\<exists>h'. scale_wordcloud float_log10 py_linear h target_cloud reference_cloud c c ''log''
             = (Inr target_cloud, h')
     \<and> map word (h' target_cloud) = map word (h target_cloud)
     \<and> map fontsize (h' target_cloud)
         = map (\<lambda>e. fontsize e * float_log10 c / float_log10 c) (h target_cloud)"
proof -
  define h1 where "h1 = snd (transfer_stats_between_wc h reference_cloud target_cloud scale_flags)"
  define G where "G = (\<lambda>e::'n entry.
      e\<lparr>fontsize := dict_get (ref_dict fontsize (h reference_cloud)) (word e) 1
              * float_log10 c / float_log10 c\<rparr>)"
  have range: "- (2 ^ 63) \<le> c" using c(1) by simp
  have res: "scale_wordcloud float_log10 py_linear h target_cloud reference_cloud c c ''log''
      = (Inr target_cloud, h1(target_cloud := map G (h1 target_cloud)))"
    unfolding h1_def G_def by (rule scale_wordcloud_log[OF range c(2) range c(2)])
  have words: "map word (h1 target_cloud) = map word (h target_cloud)"
    by (simp add: h1_def transfer_stats_between_wc_eq comp_def)
  have fs: "\<And>e. e \<in> set (h target_cloud) \<Longrightarrow>
      dict_get (ref_dict fontsize (h reference_cloud)) (word e) 1 = fontsize e"
  proof -
    fix e assume e: "e \<in> set (h target_cloud)"
    then have "word e \<in> word ` set (h target_cloud)" by simp
    then show "dict_get (ref_dict fontsize (h reference_cloud)) (word e) 1 = fontsize e"
      using filter_word_distinct[OF dist e] by (simp add: dict_get_ref_dict same)
  qed
  have "map fontsize (map G (h1 target_cloud))
      = map (\<lambda>e. dict_get (ref_dict fontsize (h reference_cloud)) (word e) 1
                  * float_log10 c / float_log10 c) (h target_cloud)"
    by (simp add: G_def h1_def transfer_stats_between_wc_eq comp_def)
  also have "\<dots> = map (\<lambda>e. fontsize e * float_log10 c / float_log10 c) (h target_cloud)"
    by (rule map_cong) (simp_all add: fs)
  finally have sizes: "map fontsize (map G (h1 target_cloud))
      = map (\<lambda>e. fontsize e * float_log10 c / float_log10 c) (h target_cloud)" .
  have "map word (map G (h1 target_cloud)) = map word (h target_cloud)"
    using words by (simp add: G_def comp_def)
  then show ?thesis using res sizes
    by (intro exI[of _ "h1(target_cloud := map G (h1 target_cloud))"]) simp
qed

lemma float64_three_at_6:
  "float64_of_int 3 * log10_of_6 / log10_of_6 = Finite 6755399441055743 (- 51)"
  "float64_of_int 3 = Finite 6755399441055744 (- 51)"
  by code_simp+

text \<open>Beyond the 64-bit range \<^verbatim>\<open>np.log10\<close> raises at the first item, after the transfer.\<close>

lemma scale_log_TypeError:
  fixes h :: "'n::{zero,one,times,inverse} store"
  assumes "h target_cloud \<noteq> []"
    and "\<not> (- (2 ^ 63) \<le> target_wordcount \<and> target_wordcount < 2 ^ 64)
         \<or> \<not> (- (2 ^ 63) \<le> reference_wordcount \<and> reference_wordcount < 2 ^ 64)"
  shows "scale_wordcloud float_log10 py_linear h target_cloud reference_cloud
           target_wordcount reference_wordcount ''log''
         = (Inl TypeError, snd (transfer_stats_between_wc h reference_cloud target_cloud
                                  scale_flags))"
proof -
  define h1 where "h1 = snd (transfer_stats_between_wc h reference_cloud target_cloud scale_flags)"
  define fs_of where "fs_of = scaled_fs float_log10 py_linear
      (ref_dict fontsize (h reference_cloud)) target_wordcount reference_wordcount ''log''"
  have fs: "\<And>w. fs_of w = Inl TypeError"
    unfolding fs_of_def by (rule scaled_fs_log_TypeError[OF assms(2)])
  have len: "length (h1 target_cloud) = length (h target_cloud)"
    by (simp add: h1_def transfer_stats_between_wc_eq)
  have loop: "scale_loop fs_of target_cloud 0 (h1, []) = (Some TypeError, h1, [])"
    using assms(1) len fs by (subst scale_loop.simps) (simp add: fs)
  show ?thesis
    using scale_wordcloud_run[where h = h and r = reference_cloud and t = target_cloud
        and lg = float_log10 and lin = py_linear and tw = target_wordcount
        and rw = reference_wordcount and ty = "''log''" and raised = "Some TypeError"
        and s' = "(h1, [])"] loop
    unfolding h1_def fs_of_def by simp
qed

section \<open>Facts about the canvas loops\<close>

text \<open>A colour whose components are bytes is stored as given.\<close>

lemma uint8_in_range:
  assumes "0 \<le> r" "r < 256" "0 \<le> g" "g < 256" "0 \<le> b" "b < 256"
  shows "(case uint8 (r, g, b) of (r', g', b') \<Rightarrow> (uint r', uint g', uint b')) = (r, g, b)"
  using assms by (simp add: uint8_def uint_word_of_int take_bit_eq_mod)

lemma length_assign_block [simp]: "length (assign_block a y0 x0 b) = length a"
  by (simp add: assign_block_def)

lemma length_assign_block_row [simp]:
  "y < length a \<Longrightarrow> length (assign_block a y0 x0 b ! y) = length (a ! y)"
  by (simp add: assign_block_def nth_enumerate_eq)

lemma assign_block_nth:
  "y < length a \<Longrightarrow> x < length (a ! y) \<Longrightarrow>
   assign_block a y0 x0 b ! y ! x =
     (if y0 \<le> y \<and> y < y0 + length b \<and> x0 \<le> x \<and> x < x0 + length (b ! (y - y0))
      then b ! (y - y0) ! (x - x0) else a ! y ! x)"
  by (simp add: assign_block_def nth_enumerate_eq)

lemma np_full_length [simp]: "length (np_full r c p) = r"
  by (simp add: np_full_def)

lemma np_full_row_length [simp]: "y < r \<Longrightarrow> length (np_full r c p ! y) = c"
  by (simp add: np_full_def)

lemma np_full_nth: "y < r \<Longrightarrow> x < c \<Longrightarrow> np_full r c p ! y ! x = p"
  by (simp add: np_full_def)

lemma sized_nth: "sized h w a \<Longrightarrow> y < h \<Longrightarrow> length (a ! y) = w"
  by (simp add: sized_def list_all_length)

lemma sized_length: "sized h w a \<Longrightarrow> length a = h"
  by (simp add: sized_def)

lemma sized_shape: "sized h w a \<Longrightarrow> 0 < h \<Longrightarrow> shape a = (h, w)"
  by (cases a) (auto simp: shape_def sized_def)

lemma sized_np_full: "sized r c (np_full r c p)"
  by (simp add: sized_def list_all_length)

lemma sized_assign_block: "sized h w a \<Longrightarrow> sized h w (assign_block a y0 x0 b)"
  by (simp add: sized_def list_all_length)

lemma rect_sized: "rect a \<Longrightarrow> sized (fst (shape a)) (snd (shape a)) a"
  by (simp add: rect_def sized_def shape_def)

lemma sized_add_border_c:
  "sized (fst (shape a) + 2) (snd (shape a) + 2) (add_border_c a 1 c)"
  by (simp add: add_border_c_def split_beta Let_def sized_assign_block sized_np_full)

lemma sized_add_border:
  "sized (fst (shape a) + 2) (snd (shape a) + 2) (add_border a 1)"
  by (simp add: add_border_def np_zeros_def Let_def sized_assign_block sized_np_full)

lemma shape_add_border: "shape (add_border a 1) = (fst (shape a) + 2, snd (shape a) + 2)"
  by (rule sized_shape[OF sized_add_border]) simp

lemma add_border_c_nth:
  assumes "rect a" "shape a = (h, w)" "y < h + 2" "x < w + 2"
  shows "add_border_c a 1 c ! y ! x =
     (if 1 \<le> y \<and> y \<le> h \<and> 1 \<le> x \<and> x \<le> w then a ! (y - 1) ! (x - 1) else uint8 c)"
proof -
  have sz: "sized h w a" using rect_sized[OF assms(1)] assms(2) by simp
  have len: "length a = h" using sz by (rule sized_length)
  have row: "1 \<le> y \<and> y \<le> h \<Longrightarrow> length (a ! (y - 1)) = w"
    using sized_nth[OF sz, of "y - 1"] by auto
  let ?N = "np_full (h + 2) (w + 2) (uint8 c)"
  have eq: "add_border_c a 1 c = assign_block ?N 1 1 a"
    by (simp add: add_border_c_def assms(2))
  have "assign_block ?N 1 1 a ! y ! x =
      (if 1 \<le> y \<and> y < 1 + length a \<and> 1 \<le> x \<and> x < 1 + length (a ! (y - 1))
       then a ! (y - 1) ! (x - 1) else ?N ! y ! x)"
    using assms(3,4) by (intro assign_block_nth) simp_all
  also have "\<dots> = (if 1 \<le> y \<and> y \<le> h \<and> 1 \<le> x \<and> x \<le> w then a ! (y - 1) ! (x - 1)
      else uint8 c)"
    using assms(3,4) row by (auto simp: len np_full_nth)
  finally show ?thesis by (simp only: eq)
qed

lemma block_range:
  "y < (b::nat) \<Longrightarrow> (i * b \<le> i' * b + y \<and> i' * b + y < i * b + b) \<longleftrightarrow> i' = i"
proof
  assume y: "y < b" and r: "i * b \<le> i' * b + y \<and> i' * b + y < i * b + b"
  show "i' = i"
  proof (rule ccontr)
    assume "i' \<noteq> i"
    then consider "i' < i" | "i < i'" by linarith
    then show False
    proof cases
      case 1
      then have "(i' + 1) * b \<le> i * b" by (intro mult_le_mono1) simp
      then show False using r y by (simp add: algebra_simps)
    next
      case 2
      then have "(i + 1) * b \<le> i' * b" by (intro mult_le_mono1) simp
      then show False using r by (simp add: algebra_simps)
    qed
  qed
next
  assume "y < b" "i' = i"
  then show "i * b \<le> i' * b + y \<and> i' * b + y < i * b + b" by simp
qed

lemma in_canvas: "i < R \<Longrightarrow> y < (b::nat) \<Longrightarrow> i * b + y < R * b"
proof -
  assume i: "i < R" and y: "y < b"
  have "(i + 1) * b \<le> R * b" using i by (intro mult_le_mono1) simp
  then show ?thesis using y by (simp add: algebra_simps)
qed


lemma place_page_step:
  assumes cv: "sized (R * h) (C * w) cv"
    and blk: "sized h w (cell_block arr h w bg (i * C + j))"
    and h0: "0 < h" and i: "i < R" and j: "j < C"
    and S: "S \<subseteq> {..<R} \<times> {..<C}"
    and fl: "filled (cell_block arr h w bg) C h w S cv"
  shows "\<exists>cv'. place_page arr C h w bg i j cv = Inr cv' \<and> sized (R * h) (C * w) cv'
     \<and> filled (cell_block arr h w bg) C h w (insert (i, j) S) cv'"
proof -
  let ?B = "cell_block arr h w bg (i * C + j)"
  let ?cv = "assign_block cv (i * h) (j * w) ?B"
  have sh: "shape ?B = (h, w)" using blk h0 by (rule sized_shape)
  have res: "place_page arr C h w bg i j cv = Inr ?cv"
    using sh by (simp add: place_page_def cell_block_def Let_def)
  have sz: "sized (R * h) (C * w) ?cv" using cv by (rule sized_assign_block)
  have lenB: "length ?B = h" using blk by (rule sized_length)
  have "filled (cell_block arr h w bg) C h w (insert (i, j) S) ?cv"
    unfolding filled_def
  proof (intro allI impI)
    fix i' j' y x
    assume a: "(i', j') \<in> insert (i, j) S \<and> y < h \<and> x < w"
    then have y: "y < h" and x: "x < w" by simp_all
    have i': "i' < R" and j': "j' < C" using a S i j by auto
    have yy: "i' * h + y < length cv"
      using in_canvas[OF i' y] sized_length[OF cv] by simp
    have xx: "j' * w + x < length (cv ! (i' * h + y))"
      using in_canvas[OF j' x] sized_nth[OF cv in_canvas[OF i' y]] by simp
    have nth: "?cv ! (i' * h + y) ! (j' * w + x) =
        (if i * h \<le> i' * h + y \<and> i' * h + y < i * h + length ?B
            \<and> j * w \<le> j' * w + x \<and> j' * w + x < j * w + length (?B ! (i' * h + y - i * h))
         then ?B ! (i' * h + y - i * h) ! (j' * w + x - j * w)
         else cv ! (i' * h + y) ! (j' * w + x))"
      using yy xx by (rule assign_block_nth)
    show "?cv ! (i' * h + y) ! (j' * w + x) = cell_block arr h w bg (i' * C + j') ! y ! x"
    proof (cases "i' = i")
      case True
      have rowlen: "length (?B ! (i' * h + y - i * h)) = w"
        using True sized_nth[OF blk y] by simp
      show ?thesis
      proof (cases "j' = j")
        case jj: True
        show ?thesis using nth True jj y x rowlen lenB by simp
      next
        case False
        then have "\<not> (j * w \<le> j' * w + x \<and> j' * w + x < j * w + w)"
          using block_range[OF x, of j j'] by simp
        then have "?cv ! (i' * h + y) ! (j' * w + x) = cv ! (i' * h + y) ! (j' * w + x)"
          using nth rowlen by auto
        moreover have "(i', j') \<in> S" using a False by auto
        ultimately show ?thesis using fl y x unfolding filled_def by simp
      qed
    next
      case False
      then have "\<not> (i * h \<le> i' * h + y \<and> i' * h + y < i * h + h)"
        using block_range[OF y, of i i'] by simp
      then have "?cv ! (i' * h + y) ! (j' * w + x) = cv ! (i' * h + y) ! (j' * w + x)"
        using nth lenB by auto
      moreover have "(i', j') \<in> S" using a False by auto
      ultimately show ?thesis using fl y x unfolding filled_def by simp
    qed
  qed
  then show ?thesis using res sz by blast
qed

lemma inner_loop:
  assumes blk: "\<forall>k < R * C. sized h w (cell_block arr h w bg k)"
    and h0: "0 < h" and i: "i < R"
  shows "sized (R * h) (C * w) cv \<Longrightarrow> S \<subseteq> {..<R} \<times> {..<C} \<Longrightarrow>
     filled (cell_block arr h w bg) C h w S cv \<Longrightarrow> \<forall>j \<in> set js. j < C \<Longrightarrow>
     \<exists>cv'. for_each (place_page arr C h w bg i) js cv = Inr cv' \<and> sized (R * h) (C * w) cv'
       \<and> filled (cell_block arr h w bg) C h w (S \<union> {i} \<times> set js) cv'"
proof (induction js arbitrary: S cv)
  case Nil
  then show ?case by simp
next
  case (Cons j js)
  have j: "j < C" using Cons.prems(4) by simp
  have "i * C + j < R * C" using in_canvas[OF i j] .
  then have b: "sized h w (cell_block arr h w bg (i * C + j))" using blk by simp
  obtain cv1 where cv1: "place_page arr C h w bg i j cv = Inr cv1"
      "sized (R * h) (C * w) cv1"
      "filled (cell_block arr h w bg) C h w (insert (i, j) S) cv1"
    using place_page_step[OF Cons.prems(1) b h0 i j Cons.prems(2) Cons.prems(3)] by blast
  have S1: "insert (i, j) S \<subseteq> {..<R} \<times> {..<C}" using Cons.prems(2) i j by auto
  have js: "\<forall>j \<in> set js. j < C" using Cons.prems(4) by simp
  obtain cv' where cv': "for_each (place_page arr C h w bg i) js cv1 = Inr cv'"
      "sized (R * h) (C * w) cv'"
      "filled (cell_block arr h w bg) C h w (insert (i, j) S \<union> {i} \<times> set js) cv'"
    using Cons.IH[OF cv1(2) S1 cv1(3) js] by blast
  have "insert (i, j) S \<union> {i} \<times> set js = S \<union> {i} \<times> set (j # js)" by auto
  then show ?case using cv1(1) cv' by simp
qed

lemma outer_loop:
  assumes blk: "\<forall>k < R * C. sized h w (cell_block arr h w bg k)"
    and h0: "0 < h"
  shows "sized (R * h) (C * w) cv \<Longrightarrow> S \<subseteq> {..<R} \<times> {..<C} \<Longrightarrow>
     filled (cell_block arr h w bg) C h w S cv \<Longrightarrow> \<forall>i \<in> set is. i < R \<Longrightarrow>
     \<exists>cv'. for_each (\<lambda>i. for_each (place_page arr C h w bg i) [0..<C]) is cv = Inr cv'
       \<and> sized (R * h) (C * w) cv'
       \<and> filled (cell_block arr h w bg) C h w (S \<union> set is \<times> {..<C}) cv'"
proof (induction "is" arbitrary: S cv)
  case Nil
  then show ?case by simp
next
  case (Cons i "is")
  have i: "i < R" using Cons.prems(4) by simp
  have "\<forall>j \<in> set [0..<C]. j < C" by simp
  then obtain cv1 where cv1: "for_each (place_page arr C h w bg i) [0..<C] cv = Inr cv1"
      "sized (R * h) (C * w) cv1"
      "filled (cell_block arr h w bg) C h w (S \<union> {i} \<times> set [0..<C]) cv1"
    using inner_loop[OF blk h0 i Cons.prems(1) Cons.prems(2) Cons.prems(3)] by blast
  have S1: "S \<union> {i} \<times> set [0..<C] \<subseteq> {..<R} \<times> {..<C}" using Cons.prems(2) i by auto
  have "is": "\<forall>i \<in> set is. i < R" using Cons.prems(4) by simp
  obtain cv' where cv': "for_each (\<lambda>i. for_each (place_page arr C h w bg i) [0..<C]) is cv1
        = Inr cv'"
      "sized (R * h) (C * w) cv'"
      "filled (cell_block arr h w bg) C h w (S \<union> {i} \<times> set [0..<C] \<union> set is \<times> {..<C}) cv'"
    using Cons.IH[OF cv1(2) S1 cv1(3) "is"] by blast
  have "S \<union> {i} \<times> set [0..<C] \<union> set is \<times> {..<C} = S \<union> set (i # is) \<times> {..<C}" by auto
  then show ?case using cv1(1) cv' by simp
qed


lemma arr_pages_nth:
  "k < length pages \<Longrightarrow> (map Some pages @ replicate n None) ! k = Some (pages ! k)"
  "length pages \<le> k \<Longrightarrow> k < length pages + n \<Longrightarrow>
     (map Some pages @ replicate n None) ! k = None"
  by (simp_all add: nth_append)

lemma arrange_pages_horizontal_Cons:
  assumes "shape (add_border p0 1) = (bh, bw)" "length (p0 # ps) \<le> R * C"
  shows "arrange_pages_horizontal (p0 # ps) R C bg =
     for_each (\<lambda>i. for_each
                 (place_page (map Some (p0 # ps) @ replicate (R * C - length (p0 # ps)) None)
                    C bh bw bg i) [0..<C])
       [0..<R] (np_zeros (R * bh) (C * bw))"
proof -
  have L: "length (map Some (p0 # ps) @ replicate (R * C - length (p0 # ps)) None) = R * C"
    using assms(2) by simp
  have "arrange_pages_horizontal (p0 # ps) R C bg =
      (if R * C \<noteq> R * C then Inl ValueError
       else for_each (\<lambda>i. for_each
                 (place_page (map Some (p0 # ps) @ replicate (R * C - length (p0 # ps)) None)
                    C bh bw bg i) [0..<C])
       [0..<R] (np_zeros (R * bh) (C * bw)))"
    by (simp only: arrange_pages_horizontal_def list.case Let_def assms(1) prod.case L)
  then show ?thesis by (simp only: if_False simp_thms)
qed

lemma arrange_pages_horizontal_filled:
  assumes ne: "pages \<noteq> []"
    and cap: "length pages \<le> R * C"
    and same: "\<forall>p \<in> set pages. shape p = (h, w)"
  shows "\<exists>canvas. arrange_pages_horizontal pages R C bg = Inr canvas
     \<and> sized (R * (h + 2)) (C * (w + 2)) canvas
     \<and> filled (cell_block (map Some pages @ replicate (R * C - length pages) None)
                 (h + 2) (w + 2) bg) C (h + 2) (w + 2) ({..<R} \<times> {..<C}) canvas"
proof -
  obtain p0 ps where pages: "pages = p0 # ps" using ne by (cases pages) auto
  let ?arr = "map Some pages @ replicate (R * C - length pages) None"
  have p0: "shape p0 = (h, w)" using same pages by simp
  have tb: "shape (add_border p0 1) = (h + 2, w + 2)"
    using shape_add_border[of p0] by (simp only: p0 fst_conv snd_conv)
  have len: "length ?arr = R * C" using cap by simp
  have blk: "\<forall>k < R * C. sized (h + 2) (w + 2) (cell_block ?arr (h + 2) (w + 2) bg k)"
  proof (intro allI impI)
    fix k assume k: "k < R * C"
    show "sized (h + 2) (w + 2) (cell_block ?arr (h + 2) (w + 2) bg k)"
    proof (cases "k < length pages")
      case True
      then have "shape (pages ! k) = (h, w)" using same by simp
      then show ?thesis
        using sized_add_border_c[of "pages ! k" "(0, 0, 0)"] True
        by (simp add: cell_block_def arr_pages_nth(1))
    next
      case False
      then have "?arr ! k = None" using k cap by (intro arr_pages_nth(2)) simp_all
      then show ?thesis by (simp add: cell_block_def sized_np_full)
    qed
  qed
  have c0: "sized (R * (h + 2)) (C * (w + 2)) (np_zeros (R * (h + 2)) (C * (w + 2)))"
    by (simp add: np_zeros_def sized_np_full)
  have f0: "filled (cell_block ?arr (h + 2) (w + 2) bg) C (h + 2) (w + 2) {}
      (np_zeros (R * (h + 2)) (C * (w + 2)))"
    by (simp add: filled_def)
  have "\<forall>i \<in> set [0..<R]. i < R" by simp
  then obtain cv where cv:
      "for_each (\<lambda>i. for_each (place_page ?arr C (h + 2) (w + 2) bg i) [0..<C]) [0..<R]
         (np_zeros (R * (h + 2)) (C * (w + 2))) = Inr cv"
      "sized (R * (h + 2)) (C * (w + 2)) cv"
      "filled (cell_block ?arr (h + 2) (w + 2) bg) C (h + 2) (w + 2)
         ({} \<union> set [0..<R] \<times> {..<C}) cv"
    using outer_loop[OF blk _ c0 _ f0, of "[0..<R]"] by auto
  have "set [0..<R] = {..<R}" by auto
  then have fill: "filled (cell_block ?arr (h + 2) (w + 2) bg) C (h + 2) (w + 2)
      ({..<R} \<times> {..<C}) cv"
    using cv(3) by simp
  have "arrange_pages_horizontal pages R C bg = Inr cv"
    using arrange_pages_horizontal_Cons[OF tb, of ps R C bg] cap cv(1)
    by (simp only: pages)
  then show ?thesis using cv(2) fill by blast
qed


lemma sized_rect: "sized h w a \<Longrightarrow> 0 < h \<Longrightarrow> rect a"
  using sized_shape[of h w a] by (simp add: rect_def sized_def)


section \<open>Claims about the grid shape\<close>

lemma determine_ideal_shape_small:
  "n \<le> 8 \<Longrightarrow> determine_ideal_shape n = (4, 2)"
proof -
  assume n: "n \<le> 8"
  obtain k where k: "1 \<le> k" "determine_ideal_shape n = grow k"
      "\<forall>j. 1 \<le> j \<and> j < k \<longrightarrow> capacity (grow j) < n"
    using determine_ideal_shape_char[of n] by blast
  have "k = 1"
  proof (rule ccontr)
    assume "k \<noteq> 1"
    then have "1 < k" using k(1) by simp
    moreover have "1 \<le> (1::nat) \<and> 1 < k \<longrightarrow> capacity (grow 1) < n"
      using k(3) by (rule spec)
    ultimately have "capacity (grow 1) < n" by blast
    then show False using n by (simp add: capacity_def grow_closed)
  qed
  then show ?thesis using k(2) by (simp add: grow_closed)
qed

lemma determine_ideal_shape_exhausted:
  "capacity (grow 100) < n \<Longrightarrow> determine_ideal_shape n = grow 100"
proof -
  assume n: "capacity (grow 100) < n"
  obtain k where k: "k \<le> 100" "determine_ideal_shape n = grow k"
      "k < 100 \<longrightarrow> n \<le> capacity (grow k)"
    using determine_ideal_shape_char[of n] by blast
  have "k = 100"
  proof (rule ccontr)
    assume "k \<noteq> 100"
    then have "n \<le> capacity (grow k)" using k(1,3) by simp
    moreover have "capacity (grow k) \<le> capacity (grow 100)"
      using capacity_grow_mono[OF k(1)] .
    ultimately show False using n by simp
  qed
  then show ?thesis using k(2) by simp
qed

text \<open>
  C4, as stated: every page count gets a shape whose capacity covers it. The loop gives up
  after 100 increments, at 53 rows and 52 columns (2756 cells), and returns that shape
  whatever the count: 2757 pages get a grid that is one cell short.
\<close>

theorem determine_ideal_shape_capacity_counterexample:
  "\<not> (2757 \<le> capacity (determine_ideal_shape 2757))"
proof -
  obtain k where k: "k \<le> 100" "determine_ideal_shape 2757 = grow k"
    using determine_ideal_shape_char[of 2757] by blast
  have "capacity (grow k) \<le> 2756"
    using capacity_grow_mono[OF k(1)] capacity_grow_100 by simp
  then show ?thesis using k(2) by simp
qed

text \<open>
  C4, amended: for every page count up to 2756, the capacity reached by the 100th
  increment, the returned shape has at least as many cells as there are pages.
\<close>

theorem determine_ideal_shape_capacity:
  "n \<le> 2756 \<Longrightarrow> n \<le> capacity (determine_ideal_shape n)"
proof -
  assume n: "n \<le> 2756"
  obtain k where k: "k \<le> 100" "determine_ideal_shape n = grow k"
      "k < 100 \<longrightarrow> n \<le> capacity (grow k)"
    using determine_ideal_shape_char[of n] by blast
  show ?thesis
  proof (cases "k < 100")
    case True
    then show ?thesis using k by simp
  next
    case False
    then have "k = 100" using k(1) by simp
    then show ?thesis using k(2) n capacity_grow_100 by simp
  qed
qed

theorem determine_ideal_shape_capacity_witness:
  "(17::nat) \<le> 2756 \<and> 17 \<le> capacity (determine_ideal_shape 17)"
  using determine_ideal_shape_capacity[of 17] by simp

text \<open>
  C5, as stated: when the base shape (3 rows, 2 columns) already holds the pages it is
  returned unchanged. One page fits the base shape, yet the loop increments before its
  first capacity test and the result is 4 rows by 2 columns.
\<close>

theorem determine_ideal_shape_base_counterexample:
  "1 \<le> num_a4_on_rows * num_a4_on_cols \<and>
   determine_ideal_shape 1 \<noteq> (num_a4_on_rows, num_a4_on_cols)"
  using determine_ideal_shape_small[of 1] by (simp add: num_a4_values)

text \<open>
  C5, amended: the shape is always grown at least once. The result is the shape after
  \<open>k\<close> increments (rows on even steps, columns on odd steps) for some \<open>k\<close> between 1
  and 100; the capacity was tested after each increment, so no earlier step \<open>j \<ge> 1\<close>
  was sufficient, and step \<open>k\<close> is sufficient unless it is the 100th and last.
\<close>

theorem determine_ideal_shape_growth:
  "\<exists>k. 1 \<le> k \<and> k \<le> 100 \<and> determine_ideal_shape n = grow k
     \<and> (\<forall>j. 1 \<le> j \<and> j < k \<longrightarrow> capacity (grow j) < n)
     \<and> (k < 100 \<longrightarrow> n \<le> capacity (grow k))"
  by (rule determine_ideal_shape_char)

theorem determine_ideal_shape_growth_witness:
  "determine_ideal_shape 17 = grow 4 \<and> capacity (grow 3) < 17 \<and> 17 \<le> capacity (grow 4)"
proof -
  obtain k where k: "1 \<le> k" "k \<le> 100" "determine_ideal_shape 17 = grow k"
      "\<forall>j. 1 \<le> j \<and> j < k \<longrightarrow> capacity (grow j) < 17"
      "k < 100 \<longrightarrow> 17 \<le> capacity (grow k)"
    using determine_ideal_shape_growth[of 17] by blast
  have c3: "capacity (grow 3) = 15" and c4: "capacity (grow 4) = 20"
    by (simp_all add: capacity_def grow_closed)
  have "\<not> 4 < k"
  proof
    assume "4 < k"
    moreover have "1 \<le> (4::nat) \<and> 4 < k \<longrightarrow> capacity (grow 4) < 17"
      using k(4) by (rule spec)
    ultimately show False using c4 by simp
  qed
  moreover have "\<not> k \<le> 3"
  proof
    assume k3: "k \<le> 3"
    then have "17 \<le> capacity (grow k)" using k(5) by simp
    moreover have "capacity (grow k) \<le> capacity (grow 3)"
      using capacity_grow_mono[OF k3] .
    ultimately show False using c3 by simp
  qed
  ultimately have "k = 4" by simp
  then show ?thesis using k(3) c3 c4 by simp
qed

text \<open>
  C6, as stated: when 100 increments do not reach the page count the selection fails with
  an error. For 2757 pages the 100th shape has 2756 cells, and the function returns that
  shape, (53, 52), as an ordinary result.
\<close>

theorem determine_ideal_shape_unreachable_counterexample:
  "capacity (grow 100) < 2757 \<and> determine_ideal_shape 2757 = (53, 52)"
proof -
  have h: "capacity (grow 100) < 2757" by (simp add: capacity_grow_100)
  show ?thesis using h determine_ideal_shape_exhausted[OF h] by (simp add: grow_closed)
qed

text \<open>
  C6, amended: the selection has no failure: when none of the 100 increments reaches the
  page count, it returns the shape after the 100th increment, 53 rows by 52 columns.
\<close>

theorem determine_ideal_shape_unreachable:
  "(\<forall>k. 1 \<le> k \<and> k \<le> 100 \<longrightarrow> capacity (grow k) < n) \<Longrightarrow>
   determine_ideal_shape n = (53, 52)"
proof -
  assume "\<forall>k. 1 \<le> k \<and> k \<le> 100 \<longrightarrow> capacity (grow k) < n"
  then have "capacity (grow 100) < n" by simp
  then show ?thesis
    using determine_ideal_shape_exhausted[of n] by (simp add: grow_closed)
qed

theorem determine_ideal_shape_unreachable_witness:
  "capacity (grow 1) < 2757 \<and> capacity (grow 50) < 2757 \<and> capacity (grow 100) < 2757 \<and>
   determine_ideal_shape 2757 = (53, 52)"
proof -
  have h: "\<forall>k. 1 \<le> k \<and> k \<le> 100 \<longrightarrow> capacity (grow k) < 2757"
  proof (intro allI impI)
    fix k :: nat assume "1 \<le> k \<and> k \<le> 100"
    then have "capacity (grow k) \<le> capacity (grow 100)"
      using capacity_grow_mono[of k 100] by simp
    then show "capacity (grow k) < 2757" using capacity_grow_100 by simp
  qed
  show ?thesis using determine_ideal_shape_unreachable[OF h]
    by (simp add: capacity_def grow_closed)
qed

text \<open>
  C9: the capacity of the selected shape is monotone in the page count.
\<close>

theorem determine_ideal_shape_capacity_mono:
  "m \<le> n \<Longrightarrow> capacity (determine_ideal_shape m) \<le> capacity (determine_ideal_shape n)"
proof -
  assume mn: "m \<le> n"
  obtain k where k: "1 \<le> k" "k \<le> 100" "determine_ideal_shape m = grow k"
      "\<forall>j. 1 \<le> j \<and> j < k \<longrightarrow> capacity (grow j) < m"
    using determine_ideal_shape_char[of m] by blast
  obtain l where l: "1 \<le> l" "l \<le> 100" "determine_ideal_shape n = grow l"
      "l < 100 \<longrightarrow> n \<le> capacity (grow l)"
    using determine_ideal_shape_char[of n] by blast
  have "k \<le> l"
  proof (rule ccontr)
    assume "\<not> k \<le> l"
    then have lk: "l < k" by simp
    then have "capacity (grow l) < m" using k(4) l(1) by simp
    moreover have "n \<le> capacity (grow l)" using lk k(2) l(4) by simp
    ultimately show False using mn by simp
  qed
  then show ?thesis using k(3) l(3) capacity_grow_mono by simp
qed

theorem determine_ideal_shape_capacity_mono_witness:
  "(5::nat) \<le> 17 \<and>
   capacity (determine_ideal_shape 5) \<le> capacity (determine_ideal_shape 17)"
  using determine_ideal_shape_capacity_mono[of 5 17] by simp

section \<open>Claims about the layout transfer and scaling\<close>

text \<open>
  C1: for the item at every index of the target, the transfer writes, for each flagged
  attribute, the reference's value for the item's word when the word occurs in the
  reference (the value of the last reference item with that word, which is the only one
  when words are unique) and otherwise the default: 0 for the font size, the orientation,
  the unknown field and the colour, (0, 0) for the position. An unflagged attribute keeps
  the target's own value, whether the word occurs in the reference or not. The reference
  is read before the loop starts, so this holds also when both clouds are one object.
\<close>

theorem transfer_values:
  fixes h :: "'n::zero store"
  assumes "i < length (h target_cloud)"
  shows "let R = h reference_cloud;
             item = h target_cloud ! i;
             item' = snd (transfer_stats_between_wc h reference_cloud target_cloud fl)
                       target_cloud ! i;
             w = word item;
             found = (w \<in> word ` set R);
             ref = last (filter (\<lambda>x. word x = w) R)
         in word item' = w
          \<and> fontsize item' = (if transfer_fontsize fl then (if found then fontsize ref else 0)
                               else fontsize item)
          \<and> orientation item' = (if transfer_orientation fl
                                  then (if found then orientation ref else Some 0)
                                  else orientation item)
          \<and> unk item' = (if transfer_unk fl then (if found then unk ref else 0)
                          else unk item)
          \<and> color item' = (if transfer_color fl
                            then (if found then color ref else ColorInt 0)
                            else color item)
          \<and> position item' = (if transfer_pos fl
                               then (if found then position ref else (0, 0))
                               else position item)"
  using assms
  by (simp add: transfer_stats_between_wc_eq Let_def transfer_item_def dict_get_ref_dict)

theorem transfer_values_witness:
  "position (snd (transfer_stats_between_wc example_store 0 1 example_flags) 1 ! 0) = (1, 1)
   \<and> color (snd (transfer_stats_between_wc example_store 0 1 example_flags) 1 ! 0)
       = ColorStr ''red''
   \<and> fontsize (snd (transfer_stats_between_wc example_store 0 1 example_flags) 1 ! 0) = 8
   \<and> position (snd (transfer_stats_between_wc example_store 0 1 example_flags) 1 ! 1) = (0, 0)
   \<and> color (snd (transfer_stats_between_wc example_store 0 1 example_flags) 1 ! 1)
       = ColorInt 0
   \<and> orientation (snd (transfer_stats_between_wc example_store 0 1 example_flags) 1 ! 1)
       = Some 2"
proof -
  have len: "0 < length (example_store 1)" "1 < length (example_store 1)"
    by (simp_all add: example_defs)
  show ?thesis
    using transfer_values[where h = example_store and target_cloud = 1 and i = 0
        and reference_cloud = 0 and fl = example_flags, OF len(1)]
      transfer_values[where h = example_store and target_cloud = 1 and i = 1
        and reference_cloud = 0 and fl = example_flags, OF len(2)]
    by (simp add: Let_def example_defs)
qed


text \<open>
  C7: the transfer returns the target cloud, whose layout has the same length and the
  same words in the same order as before; a reference that is another object is not
  written at all, and a reference that is the target object itself keeps its value when
  its words are unique; a word that occurs in the reference only does not appear in the
  result.
\<close>

theorem transfer_frame:
  "let (returned, h') = transfer_stats_between_wc h reference_cloud target_cloud fl
   in returned = target_cloud
    \<and> length (h' target_cloud) = length (h target_cloud)
    \<and> map word (h' target_cloud) = map word (h target_cloud)
    \<and> (reference_cloud \<noteq> target_cloud \<longrightarrow> h' reference_cloud = h reference_cloud)
    \<and> (reference_cloud = target_cloud \<and> distinct (map word (h target_cloud))
          \<longrightarrow> h' reference_cloud = h reference_cloud)
    \<and> (\<forall>w. w \<in> word ` set (h reference_cloud) \<and> w \<notin> word ` set (h target_cloud)
          \<longrightarrow> w \<notin> word ` set (h' target_cloud))"
proof -
  let ?f = "transfer_item fl (ref_dict fontsize (h reference_cloud))
      (ref_dict unk (h reference_cloud)) (ref_dict position (h reference_cloud))
      (ref_dict orientation (h reference_cloud)) (ref_dict color (h reference_cloud))"
  let ?h = "h(target_cloud := map ?f (h target_cloud))"
  have eq: "transfer_stats_between_wc h reference_cloud target_cloud fl = (target_cloud, ?h)"
    by (rule transfer_stats_between_wc_eq)
  have words: "map word (?h target_cloud) = map word (h target_cloud)"
    by (simp add: comp_def)
  have same: "reference_cloud = target_cloud \<and> distinct (map word (h target_cloud))
      \<longrightarrow> ?h reference_cloud = h reference_cloud"
  proof
    assume a: "reference_cloud = target_cloud \<and> distinct (map word (h target_cloud))"
    then have "map ?f (h target_cloud) = map (\<lambda>e. e) (h target_cloud)"
      by (intro map_cong refl) (simp add: transfer_item_same)
    then show "?h reference_cloud = h reference_cloud" using a by simp
  qed
  have "word ` set (?h target_cloud) = word ` set (h target_cloud)"
    using words by (metis set_map)
  then show ?thesis using same by (simp add: eq comp_def)
qed

theorem transfer_frame_witness:
  "fst (transfer_stats_between_wc example_store 0 1 example_flags) = 1
   \<and> length (snd (transfer_stats_between_wc example_store 0 1 example_flags) 1) = 2
   \<and> map word (snd (transfer_stats_between_wc example_store 0 1 example_flags) 1)
       = [''a'', ''c'']
   \<and> snd (transfer_stats_between_wc example_store 0 1 example_flags) 0 = example_reference
   \<and> ''b'' \<notin> word ` set (snd (transfer_stats_between_wc example_store 0 1 example_flags) 1)
   \<and> snd (transfer_stats_between_wc example_store 1 1 example_flags) 1 = example_target"
proof -
  have "(0::nat) \<noteq> 1" by simp
  moreover have "''b'' \<in> word ` set (example_store 0) \<and> ''b'' \<notin> word ` set (example_store 1)"
    by (simp add: example_defs)
  ultimately have first:
    "fst (transfer_stats_between_wc example_store 0 1 example_flags) = 1
     \<and> length (snd (transfer_stats_between_wc example_store 0 1 example_flags) 1) = 2
     \<and> map word (snd (transfer_stats_between_wc example_store 0 1 example_flags) 1)
         = [''a'', ''c'']
     \<and> snd (transfer_stats_between_wc example_store 0 1 example_flags) 0 = example_reference
     \<and> ''b'' \<notin> word ` set (snd (transfer_stats_between_wc example_store 0 1 example_flags) 1)"
    using transfer_frame[where h = example_store and reference_cloud = 0
        and target_cloud = 1 and fl = example_flags]
    by (simp add: case_prod_beta example_defs)
  have "(1::nat) = 1 \<and> distinct (map word (example_store 1))"
    by (simp add: example_defs)
  then have "snd (transfer_stats_between_wc example_store 1 1 example_flags) 1
      = example_store 1"
    using transfer_frame[where h = example_store and reference_cloud = 1
        and target_cloud = 1 and fl = example_flags]
    by (simp add: case_prod_beta)
  then show ?thesis using first by (simp add: example_store_def)
qed

text \<open>
  C3, amended: in log mode the scaling does not fail for any two counts within the range
  of NumPy's 64-bit integers, \<open>- 2 ^ 63 \<le> count < 2 ^ 64\<close>, whether they are above 1 or
  not (there is no domain check, and NumPy's logarithm and division of floats do not
  raise): it returns the target cloud, and each font size is the reference font size times
  \<^verbatim>\<open>np.log10\<close> of the target count, divided by \<^verbatim>\<open>np.log10\<close> of the reference count, in
  the arithmetic of the number type. The reference font size is that of the (last)
  reference item with the word, and 1 when the word does not occur in the reference.
\<close>

theorem scale_log_returns:
  fixes h :: "'n::{zero,one,times,inverse} store"
  assumes "- (2 ^ 63) \<le> target_wordcount" "target_wordcount < 2 ^ 64"
    and "- (2 ^ 63) \<le> reference_wordcount" "reference_wordcount < 2 ^ 64"
  shows "\<exists>h'. scale_wordcloud float_log10 py_linear h target_cloud reference_cloud
                 target_wordcount reference_wordcount ''log'' = (Inr target_cloud, h')
     \<and> length (h' target_cloud) = length (h target_cloud)
     \<and> (\<forall>i < length (h target_cloud).
           fontsize (h' target_cloud ! i) =
             (let w = word (h target_cloud ! i); R = h reference_cloud
              in if w \<in> word ` set R then fontsize (last (filter (\<lambda>x. word x = w) R))
                 else 1)
             * float_log10 target_wordcount / float_log10 reference_wordcount)"
proof -
  define h1 where "h1 = snd (transfer_stats_between_wc h reference_cloud target_cloud scale_flags)"
  define G where "G = (\<lambda>e::'n entry.
      e\<lparr>fontsize := dict_get (ref_dict fontsize (h reference_cloud)) (word e) 1
              * float_log10 target_wordcount / float_log10 reference_wordcount\<rparr>)"
  have res: "scale_wordcloud float_log10 py_linear h target_cloud reference_cloud
      target_wordcount reference_wordcount ''log''
      = (Inr target_cloud, h1(target_cloud := map G (h1 target_cloud)))"
    unfolding h1_def G_def by (rule scale_wordcloud_log[OF assms])
  have len: "length (h1 target_cloud) = length (h target_cloud)"
    by (simp add: h1_def transfer_stats_between_wc_eq)
  have w: "\<And>i. i < length (h target_cloud) \<Longrightarrow>
      word (h1 target_cloud ! i) = word (h target_cloud ! i)"
    by (simp add: h1_def transfer_stats_between_wc_eq)
  have "\<forall>i < length (h target_cloud).
      fontsize ((h1(target_cloud := map G (h1 target_cloud))) target_cloud ! i) =
        (let w = word (h target_cloud ! i); R = h reference_cloud
         in if w \<in> word ` set R then fontsize (last (filter (\<lambda>x. word x = w) R)) else 1)
        * float_log10 target_wordcount / float_log10 reference_wordcount"
    using len w by (simp add: G_def dict_get_ref_dict Let_def)
  then show ?thesis using res len
    by (intro exI[of _ "h1(target_cloud := map G (h1 target_cloud))"]) simp
qed

text \<open>
  C3, as stated: with a target count of 1 the scaling fails. Here the target count is 1,
  the reference count 10, and the call returns the target cloud with every font size
  scaled by \<open>log 1 / log 10 = 0\<close>.
\<close>

theorem scale_log_domain_counterexample:
  "(1::int) \<le> 1 \<and>
   scale_wordcloud log10 real_linear example_store 1 0 1 10 ''log'' =
     (Inr 1, example_store(1 :=
       [\<lparr>word = ''a'', unk = 1, fontsize = 0, position = (1, 1), orientation = None,
         color = ColorStr ''red''\<rparr>,
        \<lparr>word = ''c'', unk = 0, fontsize = 0, position = (0, 0), orientation = Some 0,
         color = ColorInt 0\<rparr>]))"
proof -
  have "scale_wordcloud log10 real_linear example_store 1 0 1 10 ''log'' =
     (Inr 1, (snd (transfer_stats_between_wc example_store 0 1 scale_flags))
               (1 := map (\<lambda>e. e\<lparr>fontsize := dict_get (ref_dict fontsize (example_store 0)) (word e) 1
                                              * log10 1 / log10 10\<rparr>)
                      (snd (transfer_stats_between_wc example_store 0 1 scale_flags) 1)))"
    by (rule scale_wordcloud_log) simp_all
  then show ?thesis
    by (simp add: transfer_stats_between_wc_eq scale_flags_def
        transfer_item_def dict_get_ref_dict example_defs log10_def)
qed

theorem scale_log_returns_witness:
  "\<exists>h'. scale_wordcloud log10 real_linear example_store 1 0 100 10 ''log'' = (Inr 1, h')
     \<and> length (h' 1) = 2
     \<and> fontsize (h' 1 ! 0) = 10 * log10 100 / log10 10
     \<and> fontsize (h' 1 ! 1) = 1 * log10 100 / log10 10"
proof -
  have r: "- (2 ^ 63) \<le> (100::int)" "(100::int) < 2 ^ 64"
      "- (2 ^ 63) \<le> (10::int)" "(10::int) < 2 ^ 64"
    by simp_all
  obtain h' where h': "scale_wordcloud log10 real_linear example_store 1 0 100 10 ''log''
        = (Inr 1, h')"
      "length (h' 1) = length (example_store 1)"
      "\<forall>i < length (example_store 1).
         fontsize (h' 1 ! i) =
           (let w = word (example_store 1 ! i); R = example_store 0
            in if w \<in> word ` set R then fontsize (last (filter (\<lambda>x. word x = w) R)) else 1)
           * log10 100 / log10 10"
    using scale_log_returns[OF r, of log10 real_linear example_store 1 0]
    by blast
  have "fontsize (h' 1 ! 0) = 10 * log10 100 / log10 10"
    using h'(3)[rule_format, of 0] by (simp add: example_defs)
  moreover have "fontsize (h' 1 ! 1) = 1 * log10 100 / log10 10"
    using h'(3)[rule_format, of 1] by (simp add: example_defs)
  moreover have "length (h' 1) = 2" using h'(2) by (simp add: example_defs)
  ultimately show ?thesis using h'(1) by blast
qed

text \<open>
  C8, as stated: scaling a layout against itself leaves every font size unchanged. In
  double precision the layout of one word with the font size 3, scaled against itself
  with the count 6, gets the font size \<open>6755399441055743 / 2 ^ 51\<close>, which is
  2.9999999999999996: the product \<open>3 * log10 6\<close> is rounded, and so is its quotient by
  \<open>log10 6\<close>. This holds whatever \<^verbatim>\<open>np.log10\<close> returns elsewhere, as long as it returns
  0.7781512503836436 at 6.
\<close>

theorem scale_self_counterexample:
  "(1::int) < 6
   \<and> float64_of_int 3 * log10_of_6 / log10_of_6 = Finite 6755399441055743 (- 51)
   \<and> float64_of_int 3 = Finite 6755399441055744 (- 51)
   \<and> \<not> (\<exists>float_log10 py_linear.
          float_log10 6 = log10_of_6
        \<and> map fontsize (snd (scale_wordcloud float_log10 py_linear example_self_store 0 0 6 6
                                ''log'') 0)
            = map fontsize (example_self_store 0))"
proof -
  have "\<not> (\<exists>float_log10 py_linear.
          float_log10 6 = log10_of_6
        \<and> map fontsize (snd (scale_wordcloud float_log10 py_linear example_self_store 0 0 6 6
                                ''log'') 0)
            = map fontsize (example_self_store 0))"
  proof
    assume "\<exists>float_log10 py_linear.
          float_log10 6 = log10_of_6
        \<and> map fontsize (snd (scale_wordcloud float_log10 py_linear example_self_store 0 0 6 6
                                ''log'') 0)
            = map fontsize (example_self_store 0)"
    then obtain lg :: "int \<Rightarrow> float64" and lin where lg: "lg 6 = log10_of_6"
      and same: "map fontsize (snd (scale_wordcloud lg lin example_self_store 0 0 6 6 ''log'') 0)
            = map fontsize (example_self_store 0)"
      by blast
    have d: "distinct (map word (example_self_store 0))"
      by (simp add: example_self_store_def example_self_def)
    obtain h' where h': "scale_wordcloud lg lin example_self_store 0 0 6 6 ''log'' = (Inr 0, h')"
        "map fontsize (h' 0) = map (\<lambda>e. fontsize e * lg 6 / lg 6) (example_self_store 0)"
      using scale_self_fontsizes[of example_self_store 0 0 6 lg lin, OF refl d]
      by auto
    have "map (\<lambda>e. fontsize e * lg 6 / lg 6) (example_self_store 0)
        = map fontsize (example_self_store 0)"
      using same h' by simp
    then have eq: "float64_of_int 3 * log10_of_6 / log10_of_6 = float64_of_int 3"
      by (simp add: example_self_store_def example_self_def lg)
    have "Finite 6755399441055743 (- 51) = float64_of_int 3 * log10_of_6 / log10_of_6"
      by (rule float64_three_at_6(1)[symmetric])
    also have "\<dots> = float64_of_int 3" by (rule eq)
    also have "\<dots> = Finite 6755399441055744 (- 51)" by (rule float64_three_at_6(2))
    finally show False by simp
  qed
  then show ?thesis using float64_three_at_6 by simp
qed

text \<open>
  C8, amended: for a layout with unique words and a count \<open>c\<close> with \<open>1 < c < 2 ^ 64\<close>,
  scaling the layout against itself in log mode (the reference being the same object, or
  another object with the same layout) returns it with the same words and with each font
  size \<open>fs\<close> replaced by \<open>(fs * log10 c) / log10 c\<close>, as the arithmetic of the font
  sizes evaluates the product and then the quotient.
\<close>

theorem scale_self:
  fixes h :: "'n::{zero,one,times,inverse} store"
  assumes "h reference_cloud = h target_cloud"
    and "distinct (map word (h target_cloud))"
    and "1 < c" "c < 2 ^ 64"
  shows "\<exists>h'. scale_wordcloud float_log10 py_linear h target_cloud reference_cloud c c ''log''
             = (Inr target_cloud, h')
     \<and> map word (h' target_cloud) = map word (h target_cloud)
     \<and> map fontsize (h' target_cloud)
         = map (\<lambda>e. fontsize e * float_log10 c / float_log10 c) (h target_cloud)"
  using assms by (rule scale_self_fontsizes)

theorem scale_self_witness:
  "\<exists>h'. scale_wordcloud log10 real_linear example_store 1 1 100 100 ''log'' = (Inr 1, h')
     \<and> map word (h' 1) = [''a'', ''c'']
     \<and> map fontsize (h' 1) = [8 * log10 100 / log10 100, 3 * log10 100 / log10 100]"
proof -
  have d: "distinct (map word (example_store 1))" by (simp add: example_defs)
  have c: "(1::int) < 100" "(100::int) < 2 ^ 64" by simp_all
  obtain h' where h': "scale_wordcloud log10 real_linear example_store 1 1 100 100 ''log''
        = (Inr 1, h')"
      "map word (h' 1) = map word (example_store 1)"
      "map fontsize (h' 1) = map (\<lambda>e. fontsize e * log10 100 / log10 100) (example_store 1)"
    using scale_self[of example_store 1 1 100 log10 real_linear, OF refl d c]
    by blast
  have w: "map word (h' 1) = [''a'', ''c'']" using h'(2) by (simp add: example_defs)
  have f: "map fontsize (h' 1) = [8 * log10 100 / log10 100, 3 * log10 100 / log10 100]"
    using h'(3) by (simp add: example_defs)
  show ?thesis by (rule exI[of _ h']) (simp only: h'(1) w f simp_thms)
qed

text \<open>
  C10: the transfer returns the target cloud it was given and writes no other object. Its
  loop, run on the store with an empty record of assignments, ends with the returned
  store and the record \<open>[0, 1, ..., n - 1]\<close>: one assignment per index, in ascending
  order; the run passes through the state in which the first \<open>k\<close> items are the new ones
  and the others the original ones, with the record \<open>[0, ..., k - 1]\<close>. The scaling,
  whatever its scale type and its outcome, writes no other object than the target, and
  when it returns, it returns the target cloud; its loop assigns the indices
  \<open>0, ..., m - 1\<close> in ascending order on the store that the transfer left, up to the end
  of the list, or up to the first item \<open>m\<close> at which the font size raises, which is then
  the outcome of the call.
\<close>

theorem in_place_mutation:
  fixes h :: "'n::{zero,one,times,inverse} store"
  shows
  "(let newitem = transfer_item fl (ref_dict fontsize (h reference_cloud))
        (ref_dict unk (h reference_cloud)) (ref_dict position (h reference_cloud))
        (ref_dict orientation (h reference_cloud)) (ref_dict color (h reference_cloud));
        (returned, h') = transfer_stats_between_wc h reference_cloud target_cloud fl
    in returned = target_cloud
     \<and> (\<forall>a. a \<noteq> target_cloud \<longrightarrow> h' a = h a)
     \<and> transfer_loop newitem target_cloud 0 (h, []) = (h', [0..<length (h target_cloud)])
     \<and> (\<forall>k \<le> length (h target_cloud).
           transfer_loop newitem target_cloud 0 (h, [])
             = transfer_loop newitem target_cloud k
                 (h(target_cloud := map newitem (take k (h target_cloud))
                                     @ drop k (h target_cloud)),
                  [0..<k])))
   \<and> (let h1 = snd (transfer_stats_between_wc h reference_cloud target_cloud scale_flags);
            fs_of = scaled_fs float_log10 py_linear (ref_dict fontsize (h1 reference_cloud))
                      target_wordcount reference_wordcount scale_type;
            (outcome, h') = scale_wordcloud float_log10 py_linear h target_cloud
                              reference_cloud target_wordcount reference_wordcount scale_type
        in (\<forall>c. outcome = Inr c \<longrightarrow> c = target_cloud)
         \<and> (\<forall>a. a \<noteq> target_cloud \<longrightarrow> h' a = h a)
         \<and> (\<exists>raised m.
               m \<le> length (h target_cloud)
             \<and> scale_loop fs_of target_cloud 0 (h1, []) = (raised, h', [0..<m])
             \<and> outcome = (case raised of None \<Rightarrow> Inr target_cloud | Some e \<Rightarrow> Inl e)
             \<and> h' target_cloud
                 = map (\<lambda>e. e\<lparr>fontsize := projr (fs_of (word e))\<rparr>) (take m (h1 target_cloud))
                   @ drop m (h1 target_cloud)
             \<and> (case raised of
                   None \<Rightarrow> m = length (h target_cloud)
                 | Some e \<Rightarrow> m < length (h target_cloud)
                     \<and> fs_of (word (h target_cloud ! m)) = Inl e)))"
proof -
  define newitem where "newitem = transfer_item fl (ref_dict fontsize (h reference_cloud))
        (ref_dict unk (h reference_cloud)) (ref_dict position (h reference_cloud))
        (ref_dict orientation (h reference_cloud)) (ref_dict color (h reference_cloud))"
  define h1 where "h1 = snd (transfer_stats_between_wc h reference_cloud target_cloud scale_flags)"
  define fs_of where "fs_of = scaled_fs float_log10 py_linear (ref_dict fontsize (h1 reference_cloud))
                      target_wordcount reference_wordcount scale_type"
  let ?n = "length (h target_cloud)"
  have tr: "transfer_stats_between_wc h reference_cloud target_cloud fl
      = (target_cloud, h(target_cloud := map newitem (h target_cloud)))"
    unfolding newitem_def by (rule transfer_stats_between_wc_eq)
  have full: "transfer_loop newitem target_cloud 0 (h, [])
      = (h(target_cloud := map newitem (h target_cloud)), [0..<?n])"
    using transfer_loop_eq[of 0 "(h, [])" target_cloud newitem] by simp
  have resume: "\<And>k. k \<le> ?n \<Longrightarrow>
      transfer_loop newitem target_cloud k
        (h(target_cloud := map newitem (take k (h target_cloud)) @ drop k (h target_cloud)),
         [0..<k])
      = (h(target_cloud := map newitem (h target_cloud)), [0..<?n])"
  proof -
    fix k assume k: "k \<le> ?n"
    let ?s = "(h(target_cloud := map newitem (take k (h target_cloud))
        @ drop k (h target_cloud)), [0..<k])"
    have len: "k \<le> length (fst ?s target_cloud)" using k by simp
    have "[0..<k] @ [k..<?n] = [0..<?n]"
      using k by (metis le_add_diff_inverse upt_add_eq_append zero_le)
    moreover have "map newitem (take k (h target_cloud)) @ map newitem (drop k (h target_cloud))
        = map newitem (h target_cloud)"
      by (simp flip: map_append)
    ultimately show "transfer_loop newitem target_cloud k ?s
        = (h(target_cloud := map newitem (h target_cloud)), [0..<?n])"
      using transfer_loop_eq[OF len, of newitem] k by simp
  qed
  have A: "(let (returned, h') = transfer_stats_between_wc h reference_cloud target_cloud fl
    in returned = target_cloud
     \<and> (\<forall>a. a \<noteq> target_cloud \<longrightarrow> h' a = h a)
     \<and> transfer_loop newitem target_cloud 0 (h, []) = (h', [0..<?n])
     \<and> (\<forall>k \<le> ?n.
           transfer_loop newitem target_cloud 0 (h, [])
             = transfer_loop newitem target_cloud k
                 (h(target_cloud := map newitem (take k (h target_cloud))
                                     @ drop k (h target_cloud)),
                  [0..<k])))"
    by (simp add: tr full resume)
  have off: "\<not> transfer_fontsize scale_flags" by (simp add: scale_flags_def)
  have d: "ref_dict fontsize (h1 reference_cloud) = ref_dict fontsize (h reference_cloud)"
    unfolding h1_def by (rule transfer_keeps_fontsize_dict[OF off])
  obtain raised m where m: "m \<le> ?n"
      "scale_loop fs_of target_cloud 0 (h1, [])
        = (raised, h1(target_cloud := map (\<lambda>e. e\<lparr>fontsize := projr (fs_of (word e))\<rparr>)
                      (take m (h1 target_cloud)) @ drop m (h1 target_cloud)), [0..<m])"
      "scale_wordcloud float_log10 py_linear h target_cloud reference_cloud target_wordcount
          reference_wordcount scale_type
        = ((case raised of Some e \<Rightarrow> Inl e | None \<Rightarrow> Inr target_cloud),
           h1(target_cloud := map (\<lambda>e. e\<lparr>fontsize := projr (fs_of (word e))\<rparr>)
                      (take m (h1 target_cloud)) @ drop m (h1 target_cloud)))"
      "case raised of None \<Rightarrow> m = ?n
        | Some e \<Rightarrow> m < ?n \<and> fs_of (word (h target_cloud ! m)) = Inl e"
    using scale_wordcloud_char[where h = h and t = target_cloud and r = reference_cloud
        and lg = float_log10 and lin = py_linear and tw = target_wordcount
        and rw = reference_wordcount and ty = scale_type]
    unfolding h1_def[symmetric] fs_of_def d by blast
  define h2 where "h2 = h1(target_cloud := map (\<lambda>e. e\<lparr>fontsize := projr (fs_of (word e))\<rparr>)
                      (take m (h1 target_cloud)) @ drop m (h1 target_cloud))"
  have other: "\<forall>a. a \<noteq> target_cloud \<longrightarrow> h2 a = h a"
    by (simp add: h2_def h1_def transfer_stats_between_wc_eq)
  have ret: "\<forall>c. (case raised of Some e \<Rightarrow> Inl e | None \<Rightarrow> Inr target_cloud) = Inr c
      \<longrightarrow> c = target_cloud"
    by (cases raised) simp_all
  have out: "(case raised of Some e \<Rightarrow> Inl e | None \<Rightarrow> Inr target_cloud)
      = (case raised of None \<Rightarrow> Inr target_cloud | Some e \<Rightarrow> Inl e)"
    by (cases raised) simp_all
  have ex: "\<exists>raised' m'. m' \<le> ?n
      \<and> scale_loop fs_of target_cloud 0 (h1, []) = (raised', h2, [0..<m'])
      \<and> (case raised of Some e \<Rightarrow> Inl e | None \<Rightarrow> Inr target_cloud)
          = (case raised' of None \<Rightarrow> Inr target_cloud | Some e \<Rightarrow> Inl e)
      \<and> h2 target_cloud
          = map (\<lambda>e. e\<lparr>fontsize := projr (fs_of (word e))\<rparr>) (take m' (h1 target_cloud))
            @ drop m' (h1 target_cloud)
      \<and> (case raised' of None \<Rightarrow> m' = ?n
          | Some e \<Rightarrow> m' < ?n \<and> fs_of (word (h target_cloud ! m')) = Inl e)"
    using m(1,2,4) out unfolding h2_def[symmetric]
    by (intro exI[of _ raised] exI[of _ m]) (simp add: h2_def)
  have B: "(let (outcome, h') = scale_wordcloud float_log10 py_linear h target_cloud
                              reference_cloud target_wordcount reference_wordcount scale_type
        in (\<forall>c. outcome = Inr c \<longrightarrow> c = target_cloud)
         \<and> (\<forall>a. a \<noteq> target_cloud \<longrightarrow> h' a = h a)
         \<and> (\<exists>raised m.
               m \<le> ?n
             \<and> scale_loop fs_of target_cloud 0 (h1, []) = (raised, h', [0..<m])
             \<and> outcome = (case raised of None \<Rightarrow> Inr target_cloud | Some e \<Rightarrow> Inl e)
             \<and> h' target_cloud
                 = map (\<lambda>e. e\<lparr>fontsize := projr (fs_of (word e))\<rparr>) (take m (h1 target_cloud))
                   @ drop m (h1 target_cloud)
             \<and> (case raised of
                   None \<Rightarrow> m = ?n
                 | Some e \<Rightarrow> m < ?n \<and> fs_of (word (h target_cloud ! m)) = Inl e)))"
    unfolding m(3) h2_def[symmetric] using ret other ex by simp
  show ?thesis
    using A B unfolding newitem_def h1_def fs_of_def Let_def by blast
qed

theorem in_place_mutation_witness:
  "fst (transfer_stats_between_wc example_store 0 1 example_flags) = 1
   \<and> snd (transfer_stats_between_wc example_store 0 1 example_flags) 0 = example_reference
   \<and> snd (transfer_loop (transfer_item example_flags (ref_dict fontsize example_reference)
              (ref_dict unk example_reference) (ref_dict position example_reference)
              (ref_dict orientation example_reference) (ref_dict color example_reference))
            1 0 (example_store, [])) = [0, 1]
   \<and> fst (scale_wordcloud log10 real_linear example_store 1 0 100 10 ''log'') = Inr 1
   \<and> snd (scale_wordcloud log10 real_linear example_store 1 0 100 10 ''log'') 0
       = example_reference
   \<and> snd (snd (scale_loop
                 (scaled_fs log10 real_linear
                    (ref_dict fontsize
                       (snd (transfer_stats_between_wc example_store 0 1 scale_flags) 0))
                    100 10 ''log'')
                 1 0 (snd (transfer_stats_between_wc example_store 0 1 scale_flags), [])))
       = [0, 1]"
proof -
  note T = in_place_mutation[of example_flags example_store 0 1 log10 real_linear 100 10
      "''log''", unfolded Let_def split_beta]
  have r: "example_store 0 = example_reference" and t: "example_store 1 = example_target"
    by (simp_all add: example_store_def)
  have n: "length (example_store 1) = 2" unfolding t by (simp add: example_target_def)
  have upt: "[0..<length (example_store 1)] = [0, 1]"
    unfolding n by (simp add: upt_rec)
  have ne: "(0::nat) \<noteq> 1" by simp
  note T1 = T[THEN conjunct1] and T2 = T[THEN conjunct2]
  have a: "fst (transfer_stats_between_wc example_store 0 1 example_flags) = 1"
    by (rule T1[THEN conjunct1])
  have b: "snd (transfer_stats_between_wc example_store 0 1 example_flags) 0
      = example_reference"
    using T1[THEN conjunct2, THEN conjunct1, rule_format, OF ne] r by simp
  have "transfer_loop (transfer_item example_flags (ref_dict fontsize (example_store 0))
              (ref_dict unk (example_store 0)) (ref_dict position (example_store 0))
              (ref_dict orientation (example_store 0)) (ref_dict color (example_store 0)))
            1 0 (example_store, [])
      = (snd (transfer_stats_between_wc example_store 0 1 example_flags),
         [0..<length (example_store 1)])"
    by (rule T1[THEN conjunct2, THEN conjunct2, THEN conjunct1])
  then have c: "snd (transfer_loop (transfer_item example_flags
              (ref_dict fontsize example_reference)
              (ref_dict unk example_reference) (ref_dict position example_reference)
              (ref_dict orientation example_reference) (ref_dict color example_reference))
            1 0 (example_store, [])) = [0, 1]"
    unfolding r upt by simp
  let ?out = "scale_wordcloud log10 real_linear example_store 1 0 100 10 ''log''"
  let ?h1 = "snd (transfer_stats_between_wc example_store 0 1 scale_flags)"
  let ?fs = "scaled_fs log10 real_linear (ref_dict fontsize (?h1 0)) 100 10 ''log''"
  obtain raised m where m: "m \<le> length (example_store 1)"
      "scale_loop ?fs 1 0 (?h1, []) = (raised, snd ?out, [0..<m])"
      "fst ?out = (case raised of None \<Rightarrow> Inr 1 | Some e \<Rightarrow> Inl e)"
      "case raised of None \<Rightarrow> m = length (example_store 1)
       | Some e \<Rightarrow> m < length (example_store 1) \<and> ?fs (word (example_store 1 ! m)) = Inl e"
    using T2[THEN conjunct2, THEN conjunct2] by blast
  have ok: "\<And>w. ?fs w = Inr (dict_get (ref_dict fontsize (?h1 0)) w 1 * log10 100 / log10 10)"
    by (rule scaled_fs_log) simp_all
  have none: "raised = None" using m(4) ok by (cases raised) auto
  then have mm: "m = length (example_store 1)" using m(4) by simp
  have d: "fst ?out = Inr 1" using m(3) none by simp
  have e: "snd ?out 0 = example_reference"
    using T2[THEN conjunct2, THEN conjunct1, rule_format, OF ne] r by simp
  have f: "snd (snd (scale_loop ?fs 1 0 (?h1, []))) = [0, 1]"
    using m(2) mm upt by simp
  show ?thesis using a b c d e f by (intro conjI)
qed

section \<open>Claim about the page canvas\<close>

text \<open>
  C2: for a non-empty list of pages that are arrays of one common shape (h, w), and a grid
  of at least as many cells as pages, \<^verbatim>\<open>arrange_pages_horizontal\<close> returns a canvas of shape
  (num_rows * (h + 2), num_cols * (w + 2)), where (h + 2, w + 2) is the shape of a bordered
  page. Cell \<open>k\<close> of the canvas, in row-major order (row \<open>k div num_cols\<close>, column
  \<open>k mod num_cols\<close>), holds the bordered page \<open>k\<close> for every page, so that the page itself
  lies one pixel inside its cell; each cell after the last page is filled, pixel by pixel,
  with the background colour as a \<^verbatim>\<open>uint8\<close> pixel (the colour itself when its
  components are bytes).
\<close>

theorem arrange_pages_horizontal_grid:
  assumes "pages \<noteq> []"
    and "length pages \<le> num_rows * num_cols"
    and "\<forall>p \<in> set pages. rect p \<and> shape p = (h, w)"
  shows "\<exists>canvas. arrange_pages_horizontal pages num_rows num_cols background_color = Inr canvas
     \<and> shape (add_border_c (hd pages) 1 (0, 0, 0)) = (h + 2, w + 2)
     \<and> shape canvas = (num_rows * (h + 2), num_cols * (w + 2)) \<and> rect canvas
     \<and> (\<forall>k y x. k < num_rows * num_cols \<and> y < h + 2 \<and> x < w + 2 \<longrightarrow>
           canvas ! (k div num_cols * (h + 2) + y) ! (k mod num_cols * (w + 2) + x) =
             (if k < length pages then add_border_c (pages ! k) 1 (0, 0, 0) ! y ! x
              else uint8 background_color))
     \<and> (\<forall>k y x. k < length pages \<and> y < h \<and> x < w \<longrightarrow>
           canvas ! (k div num_cols * (h + 2) + 1 + y) ! (k mod num_cols * (w + 2) + 1 + x) =
             pages ! k ! y ! x)"
proof -
  let ?arr = "map Some pages @ replicate (num_rows * num_cols - length pages) None"
  let ?B = "cell_block ?arr (h + 2) (w + 2) background_color"
  have same: "\<forall>p \<in> set pages. shape p = (h, w)" using assms(3) by simp
  obtain canvas where cv:
      "arrange_pages_horizontal pages num_rows num_cols background_color = Inr canvas"
      "sized (num_rows * (h + 2)) (num_cols * (w + 2)) canvas"
      "filled ?B num_cols (h + 2) (w + 2) ({..<num_rows} \<times> {..<num_cols}) canvas"
    using arrange_pages_horizontal_filled[OF assms(1,2) same] by blast
  have "0 < length pages" using assms(1) by simp
  then have pos: "0 < num_rows * num_cols" using assms(2) by linarith
  then have R: "0 < num_rows" and C: "0 < num_cols" by simp_all
  have hd: "shape (hd pages) = (h, w)" using assms(1) same by simp
  have b0: "shape (add_border_c (hd pages) 1 (0, 0, 0)) = (h + 2, w + 2)"
    using sized_shape[OF sized_add_border_c[of "hd pages" "(0, 0, 0)"]] hd by simp
  have sh: "shape canvas = (num_rows * (h + 2), num_cols * (w + 2))"
    using cv(2) R by (intro sized_shape) simp_all
  have re: "rect canvas" using cv(2) R by (intro sized_rect[OF cv(2)]) simp
  have cell: "\<And>k y x. k < num_rows * num_cols \<Longrightarrow> y < h + 2 \<Longrightarrow> x < w + 2 \<Longrightarrow>
      canvas ! (k div num_cols * (h + 2) + y) ! (k mod num_cols * (w + 2) + x) =
        (if k < length pages then add_border_c (pages ! k) 1 (0, 0, 0) ! y ! x
         else uint8 background_color)"
  proof -
    fix k y x assume k: "k < num_rows * num_cols" and y: "y < h + 2" and x: "x < w + 2"
    have i: "k div num_cols < num_rows"
      using k C by (simp add: less_mult_imp_div_less)
    have j: "k mod num_cols < num_cols" using C by simp
    have "(k div num_cols, k mod num_cols) \<in> {..<num_rows} \<times> {..<num_cols}"
      using i j by simp
    then have "canvas ! (k div num_cols * (h + 2) + y) ! (k mod num_cols * (w + 2) + x)
        = ?B (k div num_cols * num_cols + k mod num_cols) ! y ! x"
      using cv(3) y x unfolding filled_def by blast
    also have "k div num_cols * num_cols + k mod num_cols = k" by simp
    also have "?B k ! y ! x = (if k < length pages
        then add_border_c (pages ! k) 1 (0, 0, 0) ! y ! x else uint8 background_color)"
    proof (cases "k < length pages")
      case True
      then show ?thesis by (simp add: cell_block_def arr_pages_nth(1))
    next
      case False
      then have "?arr ! k = None" using k assms(2) by (intro arr_pages_nth(2)) simp_all
      then show ?thesis using False y x by (simp add: cell_block_def np_full_nth)
    qed
    finally show "canvas ! (k div num_cols * (h + 2) + y) ! (k mod num_cols * (w + 2) + x) =
        (if k < length pages then add_border_c (pages ! k) 1 (0, 0, 0) ! y ! x
         else uint8 background_color)" .
  qed
  have inner: "\<And>k y x. k < length pages \<Longrightarrow> y < h \<Longrightarrow> x < w \<Longrightarrow>
      canvas ! (k div num_cols * (h + 2) + 1 + y) ! (k mod num_cols * (w + 2) + 1 + x) =
        pages ! k ! y ! x"
  proof -
    fix k y x assume k: "k < length pages" and y: "y < h" and x: "x < w"
    have p: "rect (pages ! k)" "shape (pages ! k) = (h, w)" using assms(3) k by simp_all
    have "canvas ! (k div num_cols * (h + 2) + (1 + y)) ! (k mod num_cols * (w + 2) + (1 + x))
        = add_border_c (pages ! k) 1 (0, 0, 0) ! (1 + y) ! (1 + x)"
      using cell[of k "1 + y" "1 + x"] k assms(2) y x by simp
    also have "\<dots> = pages ! k ! y ! x"
      using add_border_c_nth[OF p, of "1 + y" "1 + x" "(0, 0, 0)"] y x by simp
    finally show "canvas ! (k div num_cols * (h + 2) + 1 + y) ! (k mod num_cols * (w + 2) + 1 + x)
        = pages ! k ! y ! x"
      by (simp add: add.assoc)
  qed
  show ?thesis using cv(1) b0 sh re cell inner by blast
qed


theorem arrange_pages_horizontal_grid_witness:
  "\<exists>canvas. arrange_pages_horizontal example_pages 1 3 (200, 200, 200) = Inr canvas
     \<and> shape canvas = (3, 9)
     \<and> canvas ! 1 ! 1 = (1, 2, 3) \<and> canvas ! 1 ! 4 = (7, 8, 9)
     \<and> canvas ! 0 ! 0 = (0, 0, 0)
     \<and> canvas ! 0 ! 6 = (200, 200, 200) \<and> canvas ! 2 ! 8 = (200, 200, 200)"
proof -
  have h1: "example_pages \<noteq> []" by (simp add: example_pages_def eval_nat_numeral)
  have h2: "length example_pages \<le> 1 * 3" by (simp add: example_pages_def eval_nat_numeral)
  have h3: "\<forall>p \<in> set example_pages. rect p \<and> shape p = (1, 1)"
    by (simp add: example_pages_def rect_def shape_def)
  obtain canvas where cv:
      "arrange_pages_horizontal example_pages 1 3 (200, 200, 200) = Inr canvas"
      "shape canvas = (1 * (1 + 2), 3 * (1 + 2))"
      "\<forall>k y x. k < 1 * 3 \<and> y < 1 + 2 \<and> x < 1 + 2 \<longrightarrow>
           canvas ! (k div 3 * (1 + 2) + y) ! (k mod 3 * (1 + 2) + x) =
             (if k < length example_pages
              then add_border_c (example_pages ! k) 1 (0, 0, 0) ! y ! x
              else uint8 (200, 200, 200))"
      "\<forall>k y x. k < length example_pages \<and> y < 1 \<and> x < 1 \<longrightarrow>
           canvas ! (k div 3 * (1 + 2) + 1 + y) ! (k mod 3 * (1 + 2) + 1 + x) =
             example_pages ! k ! y ! x"
    using arrange_pages_horizontal_grid[OF h1 h2 h3, of "(200, 200, 200)"] by blast
  have len: "length example_pages = 2" by (simp add: example_pages_def)
  have u0: "uint8 (0, 0, 0) = (0, 0, 0)" and u2: "uint8 (200, 200, 200) = (200, 200, 200)"
    by (simp_all add: uint8_def)
  have p0: "example_pages ! 0 = [[(1, 2, 3)]]" and p1: "example_pages ! 1 = [[(7, 8, 9)]]"
    by (simp_all add: example_pages_def)
  have i00: "(0::nat) div 3 * (1 + 2) + 1 + 0 = 1" "(0::nat) mod 3 * (1 + 2) + 1 + 0 = 1"
    and i10: "(1::nat) div 3 * (1 + 2) + 1 + 0 = 1" "(1::nat) mod 3 * (1 + 2) + 1 + 0 = 4"
    and c00: "(0::nat) div 3 * (1 + 2) + 0 = 0" "(0::nat) mod 3 * (1 + 2) + 0 = 0"
    and c20: "(2::nat) div 3 * (1 + 2) + 0 = 0" "(2::nat) mod 3 * (1 + 2) + 0 = 6"
    and c22: "(2::nat) div 3 * (1 + 2) + 2 = 2" "(2::nat) mod 3 * (1 + 2) + 2 = 8"
    by simp_all
  have "(0::nat) < length example_pages \<and> (0::nat) < 1 \<and> (0::nat) < 1" by (simp add: len)
  then have "canvas ! 1 ! 1 = example_pages ! 0 ! 0 ! 0"
    using cv(4)[rule_format, of 0 0 0] by (simp only: i00)
  then have a: "canvas ! 1 ! 1 = (1, 2, 3)" by (simp only: p0 nth_Cons_0)
  have "(1::nat) < length example_pages \<and> (0::nat) < 1 \<and> (0::nat) < 1" by (simp add: len)
  then have "canvas ! 1 ! 4 = example_pages ! 1 ! 0 ! 0"
    using cv(4)[rule_format, of 1 0 0] by (simp only: i10)
  then have b: "canvas ! 1 ! 4 = (7, 8, 9)" by (simp only: p1 nth_Cons_0)
  have "rect (example_pages ! 0)" "shape (example_pages ! 0) = (1, 1)"
    by (simp_all add: p0 rect_def shape_def)
  then have bord: "add_border_c (example_pages ! 0) 1 (0, 0, 0) ! 0 ! 0 = uint8 (0, 0, 0)"
    using add_border_c_nth[of "example_pages ! 0" 1 1 0 0 "(0, 0, 0)"] by simp
  have "(0::nat) < 1 * 3 \<and> (0::nat) < 1 + 2 \<and> (0::nat) < 1 + 2" by simp
  then have "canvas ! 0 ! 0 = (if 0 < length example_pages
      then add_border_c (example_pages ! 0) 1 (0, 0, 0) ! 0 ! 0 else uint8 (200, 200, 200))"
    using cv(3)[rule_format, of 0 0 0] by (simp only: c00)
  then have c: "canvas ! 0 ! 0 = (0, 0, 0)" unfolding len bord u0 by simp
  have "(2::nat) < 1 * 3 \<and> (0::nat) < 1 + 2 \<and> (0::nat) < 1 + 2" by simp
  then have "canvas ! 0 ! 6 = (if 2 < length example_pages
      then add_border_c (example_pages ! 2) 1 (0, 0, 0) ! 0 ! 0 else uint8 (200, 200, 200))"
    using cv(3)[rule_format, of 2 0 0] by (simp only: c20)
  then have d: "canvas ! 0 ! 6 = (200, 200, 200)" unfolding len u2 by simp
  have "(2::nat) < 1 * 3 \<and> (2::nat) < 1 + 2 \<and> (2::nat) < 1 + 2" by simp
  then have "canvas ! 2 ! 8 = (if 2 < length example_pages
      then add_border_c (example_pages ! 2) 1 (0, 0, 0) ! 2 ! 2 else uint8 (200, 200, 200))"
    using cv(3)[rule_format, of 2 2 2] by (simp only: c22)
  then have e: "canvas ! 2 ! 8 = (200, 200, 200)" unfolding len u2 by simp
  have "shape canvas = (3, 9)" using cv(2) by simp
  then show ?thesis using cv(1) a b c d e by blast
qed

end
